theory Spec2Isabelle
  imports Complex_Main "HOL-Library.Word"
begin

unbundle bit_operations_syntax

chapter \<open>The replacement-policy simulator of coalesce\_sim.cpp\<close>

text \<open>
  A shallow embedding of \<^verbatim>\<open>src/simulations/coalesce_sim.cpp\<close>: the perceptron brain, the
  abstract replacement policy with its three implementations (LRU, SRRIP, COALESCE) and the
  set-associative simulator that drives them. Objects are records, member functions take
  the object's state and return the new one, and the virtual dispatch of
  \<open>ReplacementPolicy\<close> is a record of functions passed to the simulator.
\<close>

section \<open>Configuration constants\<close>

definition NUM_SETS :: nat where "NUM_SETS = 64"
definition WAYS :: nat where "WAYS = 8"
definition PERCEPTRON_TABLE_SIZE :: nat where "PERCEPTRON_TABLE_SIZE = 4096"
definition SAMPLER_SIZE :: nat where "SAMPLER_SIZE = 8"
definition SAMPLING_RATE :: nat where "SAMPLING_RATE = 32"

section \<open>Data model\<close>

text \<open>
  \<open>uint64_t\<close> is a 64-bit word. The weights, votes, ranks, re-reference values and
  sharer counts are C++ \<open>int\<close>s that stay in a small range (the saturation guards of
  \<open>train\<close> and the updates of the policies keep them there); they are modelled by \<open>int\<close>,
  with which the program agrees as long as no value leaves the 32-bit range. The three
  statistics counters of \<open>Simulator\<close> are incremented once per access, without a bound:
  they are 32-bit words, read as two's complement by \<open>sint\<close>, so that \<open>+\<close> wraps as the
  compiled program does (signed overflow is formally undefined in C++).
\<close>

type_synonym u64 = "64 word"
type_synonym i32 = "32 word"

datatype MESI_State = INVALID | SHARED | EXCLUSIVE | MODIFIED

fun MESI_code :: "MESI_State \<Rightarrow> int" where
  "MESI_code INVALID = 0"
| "MESI_code SHARED = 1"
| "MESI_code EXCLUSIVE = 2"
| "MESI_code MODIFIED = 3"

record CacheLine =
  valid :: bool
  tag :: u64
  pc :: u64
  sharers :: int
  state :: MESI_State
  lru_stack :: int
  rrpv :: int

text \<open>The default member initialisers of \<open>struct CacheLine\<close>.\<close>

definition CacheLine_default :: CacheLine where
  "CacheLine_default =
     \<lparr>valid = False, tag = 0, pc = 0, sharers = 0, state = INVALID, lru_stack = 0, rrpv = 3\<rparr>"

record SamplerEntry =
  s_valid :: bool
  partial_tag :: u64
  s_pc :: u64
  s_sharers :: int
  s_state :: MESI_State
  last_prediction :: int

definition SamplerEntry_default :: SamplerEntry where
  "SamplerEntry_default =
     \<lparr>s_valid = False, partial_tag = 0, s_pc = 0, s_sharers = 0, s_state = INVALID,
      last_prediction = 0\<rparr>"

section \<open>PerceptronBrain\<close>

record PerceptronBrain =
  weights :: "int list"

definition PerceptronBrain_init :: PerceptronBrain where
  "PerceptronBrain_init = \<lparr>weights = replicate PERCEPTRON_TABLE_SIZE 0\<rparr>"

text \<open>
  \<open>h\<close> is a \<open>uint64_t\<close>; the two shifted \<open>int\<close> operands are converted to it
  (\<open>word_of_int\<close> is the conversion modulo \<open>2^64\<close>), the constant is an unsigned
  literal, and the remainder is taken on \<open>uint64_t\<close>.
\<close>

definition get_hash :: "u64 \<Rightarrow> int \<Rightarrow> MESI_State \<Rightarrow> nat" where
  "get_hash p sh st =
     (let h0 = p;
          h1 = h0 XOR word_of_int (push_bit 4 sh);
          h2 = h1 XOR word_of_int (push_bit 8 (MESI_code st))
      in unat ((h2 XOR 0x9e3779b9) mod word_of_nat PERCEPTRON_TABLE_SIZE))"

definition predict :: "PerceptronBrain \<Rightarrow> u64 \<Rightarrow> int \<Rightarrow> MESI_State \<Rightarrow> int" where
  "predict b p sh st = weights b ! get_hash p sh st"

definition train :: "PerceptronBrain \<Rightarrow> u64 \<Rightarrow> int \<Rightarrow> MESI_State \<Rightarrow> bool \<Rightarrow> PerceptronBrain" where
  "train b p sh st positive =
     (let idx = get_hash p sh st in
      if positive then
        (if weights b ! idx < 127
         then b\<lparr>weights := (weights b)[idx := weights b ! idx + 1]\<rparr> else b)
      else
        (if weights b ! idx > - 128
         then b\<lparr>weights := (weights b)[idx := weights b ! idx - 1]\<rparr> else b))"

text \<open>A sequence of \<open>train\<close> calls, each given by its four arguments.\<close>

fun train_all :: "PerceptronBrain \<Rightarrow> (u64 \<times> int \<times> MESI_State \<times> bool) list \<Rightarrow> PerceptronBrain" where
  "train_all b [] = b"
| "train_all b ((p, sh, st, positive) # cs) = train_all (train b p sh st positive) cs"

definition weights_ok :: "PerceptronBrain \<Rightarrow> bool" where
  "weights_ok b \<longleftrightarrow>
     length (weights b) = PERCEPTRON_TABLE_SIZE \<and>
     list_all (\<lambda>w. - 128 \<le> w \<and> w \<le> 127) (weights b)"

section \<open>Faults\<close>

text \<open>
  The program has no exceptions. It can fail to return (the aging loop of SRRIP is a
  \<open>while (true)\<close>) and it can index a vector out of range, which is undefined behaviour
  in C++. Both are results of the model: \<open>NonTermination\<close>, and \<open>OutOfBoundsRead\<close> /
  \<open>OutOfBoundsStore\<close> carrying the offending index, produced at the statement that
  performs the unchecked access.
\<close>

datatype fault = NonTermination | OutOfBoundsRead int | OutOfBoundsStore nat int

section \<open>ReplacementPolicy: the abstract base class\<close>

text \<open>
  The three pure virtual functions and \<open>name\<close>, as a record of functions over the
  state \<open>'p\<close> of the concrete policy object. \<open>find_victim\<close> may mutate the policy, so
  it returns the way together with the new policy state.
\<close>

record 'p ReplacementPolicy =
  update_on_hit :: "'p \<Rightarrow> nat \<Rightarrow> nat \<Rightarrow> CacheLine \<Rightarrow> 'p"
  update_on_miss :: "'p \<Rightarrow> nat \<Rightarrow> nat \<Rightarrow> 'p"
  find_victim :: "'p \<Rightarrow> nat \<Rightarrow> CacheLine list \<Rightarrow> u64 \<Rightarrow> int \<Rightarrow> MESI_State \<Rightarrow> fault + (int \<times> 'p)"
  name :: string

section \<open>LRU\_Policy\<close>

record LRU_Policy =
  lru_stacks :: "int list list"

definition LRU_init :: LRU_Policy where
  "LRU_init = \<lparr>lru_stacks = replicate NUM_SETS (map int [0..<WAYS])\<rparr>"

definition LRU_update_on_hit :: "LRU_Policy \<Rightarrow> nat \<Rightarrow> nat \<Rightarrow> CacheLine \<Rightarrow> LRU_Policy" where
  "LRU_update_on_hit p set_idx way line =
     (let old_pos = lru_stacks p ! set_idx ! way;
          row = fold (\<lambda>w r. if r ! w < old_pos then r[w := r ! w + 1] else r) [0..<WAYS]
                  (lru_stacks p ! set_idx)
      in p\<lparr>lru_stacks := (lru_stacks p)[set_idx := row[way := 0]]\<rparr>)"

definition LRU_update_on_miss :: "LRU_Policy \<Rightarrow> nat \<Rightarrow> nat \<Rightarrow> LRU_Policy" where
  "LRU_update_on_miss p set_idx way =
     (let old_pos = lru_stacks p ! set_idx ! way;
          row = fold (\<lambda>w r. if r ! w < old_pos then r[w := r ! w + 1] else r) [0..<WAYS]
                  (lru_stacks p ! set_idx)
      in p\<lparr>lru_stacks := (lru_stacks p)[set_idx := row[way := 0]]\<rparr>)"

text \<open>
  The scan returns at the first way that is invalid or has rank \<open>WAYS - 1\<close>; the
  fall-through \<open>return 0\<close> is the \<open>None\<close> case.
\<close>

definition LRU_find_victim ::
  "LRU_Policy \<Rightarrow> nat \<Rightarrow> CacheLine list \<Rightarrow> u64 \<Rightarrow> int \<Rightarrow> MESI_State \<Rightarrow> fault + (int \<times> LRU_Policy)" where
  "LRU_find_victim p set_idx cset p_c sh st =
     (case find (\<lambda>w. \<not> valid (cset ! w) \<or> lru_stacks p ! set_idx ! w = int WAYS - 1) [0..<WAYS] of
        Some w \<Rightarrow> Inr (int w, p)
      | None \<Rightarrow> Inr (0, p))"

definition LRU_ops :: "LRU_Policy ReplacementPolicy" where
  "LRU_ops = \<lparr>update_on_hit = LRU_update_on_hit, update_on_miss = LRU_update_on_miss,
              find_victim = LRU_find_victim, name = ''LRU''\<rparr>"

section \<open>SRRIP\_Policy\<close>

record SRRIP_Policy =
  rrpv_bits :: "int list list"

definition SRRIP_init :: SRRIP_Policy where
  "SRRIP_init = \<lparr>rrpv_bits = replicate NUM_SETS (replicate WAYS 3)\<rparr>"

definition SRRIP_update_on_hit :: "SRRIP_Policy \<Rightarrow> nat \<Rightarrow> nat \<Rightarrow> CacheLine \<Rightarrow> SRRIP_Policy" where
  "SRRIP_update_on_hit p set_idx way line =
     p\<lparr>rrpv_bits := (rrpv_bits p)[set_idx := (rrpv_bits p ! set_idx)[way := 0]]\<rparr>"

definition SRRIP_update_on_miss :: "SRRIP_Policy \<Rightarrow> nat \<Rightarrow> nat \<Rightarrow> SRRIP_Policy" where
  "SRRIP_update_on_miss p set_idx way =
     p\<lparr>rrpv_bits := (rrpv_bits p)[set_idx := (rrpv_bits p ! set_idx)[way := 2]]\<rparr>"

text \<open>One pass of the scanning \<open>for\<close> loop and one pass of the aging \<open>for\<close> loop.\<close>

definition SRRIP_scan :: "CacheLine list \<Rightarrow> int list \<Rightarrow> nat option" where
  "SRRIP_scan cset row = find (\<lambda>w. \<not> valid (cset ! w) \<or> row ! w = 3) [0..<WAYS]"

definition SRRIP_age :: "int list \<Rightarrow> int list" where
  "SRRIP_age row = fold (\<lambda>w r. if r ! w < 3 then r[w := r ! w + 1] else r) [0..<WAYS] row"

text \<open>The \<open>while (true)\<close> loop: \<open>None\<close> is the run that never returns.\<close>

partial_function (option) SRRIP_loop :: "CacheLine list \<Rightarrow> int list \<Rightarrow> (nat \<times> int list) option" where
  "SRRIP_loop cset row =
     (case SRRIP_scan cset row of
        Some w \<Rightarrow> Some (w, row)
      | None \<Rightarrow> SRRIP_loop cset (SRRIP_age row))"

definition SRRIP_find_victim ::
  "SRRIP_Policy \<Rightarrow> nat \<Rightarrow> CacheLine list \<Rightarrow> u64 \<Rightarrow> int \<Rightarrow> MESI_State \<Rightarrow> fault + (int \<times> SRRIP_Policy)" where
  "SRRIP_find_victim p set_idx cset p_c sh st =
     (case SRRIP_loop cset (rrpv_bits p ! set_idx) of
        None \<Rightarrow> Inl NonTermination
      | Some (w, row) \<Rightarrow> Inr (int w, p\<lparr>rrpv_bits := (rrpv_bits p)[set_idx := row]\<rparr>))"

definition SRRIP_ops :: "SRRIP_Policy ReplacementPolicy" where
  "SRRIP_ops = \<lparr>update_on_hit = SRRIP_update_on_hit, update_on_miss = SRRIP_update_on_miss,
                find_victim = SRRIP_find_victim, name = ''SRRIP''\<rparr>"

section \<open>COALESCE\_Policy\<close>

text \<open>
  The policy holds a pointer to a brain that only it trains during a run; the brain is a
  field of the policy state.
\<close>

record COALESCE_Policy =
  brain :: PerceptronBrain
  samplers :: "SamplerEntry list list"
  is_sampled :: "bool list"

definition COALESCE_init :: "PerceptronBrain \<Rightarrow> COALESCE_Policy" where
  "COALESCE_init b =
     \<lparr>brain = b,
      samplers = replicate NUM_SETS (replicate SAMPLER_SIZE SamplerEntry_default),
      is_sampled = map (\<lambda>i. i mod SAMPLING_RATE = 0) [0..<NUM_SETS]\<rparr>"

definition COALESCE_update_on_hit :: "COALESCE_Policy \<Rightarrow> nat \<Rightarrow> nat \<Rightarrow> CacheLine \<Rightarrow> COALESCE_Policy" where
  "COALESCE_update_on_hit p set_idx way line =
     (if is_sampled p ! set_idx
      then p\<lparr>brain := train (brain p) (pc line) (sharers line) (state line) True\<rparr>
      else p)"

definition COALESCE_update_on_miss :: "COALESCE_Policy \<Rightarrow> nat \<Rightarrow> nat \<Rightarrow> COALESCE_Policy" where
  "COALESCE_update_on_miss p set_idx way = p"

text \<open>The adjusted vote of one line: the prediction plus the two coherence bonuses.\<close>

definition COALESCE_vote :: "PerceptronBrain \<Rightarrow> CacheLine \<Rightarrow> int" where
  "COALESCE_vote b l =
     (let vote = predict b (pc l) (sharers l) (state l);
          vote = (if state l = MODIFIED then vote + 60 else vote);
          vote = (if sharers l > 2 then vote + 30 else vote)
      in vote)"

text \<open>
  The voting loop over the remaining ways, carrying \<open>(victim, min_vote)\<close>. \<open>Inl w\<close> is
  the early \<open>return w\<close> at an invalid way; \<open>Inr\<close> is the pair at the end of the loop.
\<close>

fun COALESCE_scan ::
  "PerceptronBrain \<Rightarrow> CacheLine list \<Rightarrow> nat list \<Rightarrow> int \<times> int \<Rightarrow> nat + (int \<times> int)" where
  "COALESCE_scan b cset [] (victim, min_vote) = Inr (victim, min_vote)"
| "COALESCE_scan b cset (w # ws) (victim, min_vote) =
     (if \<not> valid (cset ! w) then Inl w
      else if COALESCE_vote b (cset ! w) < min_vote
           then COALESCE_scan b cset ws (int w, COALESCE_vote b (cset ! w))
           else COALESCE_scan b cset ws (victim, min_vote))"

definition COALESCE_find_victim ::
  "COALESCE_Policy \<Rightarrow> nat \<Rightarrow> CacheLine list \<Rightarrow> u64 \<Rightarrow> int \<Rightarrow> MESI_State
     \<Rightarrow> fault + (int \<times> COALESCE_Policy)" where
  "COALESCE_find_victim p set_idx cset current_pc current_sharers current_state =
     (case COALESCE_scan (brain p) cset [0..<WAYS] (- 1, 99999) of
        Inl w \<Rightarrow> Inr (int w, p)
      | Inr (victim, min_vote) \<Rightarrow>
          if is_sampled p ! set_idx then
            (if victim < 0 then Inl (OutOfBoundsRead victim)
             else
               let victim_line = cset ! nat victim;
                   entry = \<lparr>s_valid = True, partial_tag = tag victim_line, s_pc = pc victim_line,
                            s_sharers = sharers victim_line, s_state = state victim_line,
                            last_prediction = min_vote\<rparr>
               in Inr (victim,
                       p\<lparr>samplers := (samplers p)[set_idx := samplers p ! set_idx @ [entry]],
                         brain := train (brain p) (pc victim_line) (sharers victim_line)
                                    (state victim_line) False\<rparr>))
          else Inr (victim, p))"

definition COALESCE_ops :: "COALESCE_Policy ReplacementPolicy" where
  "COALESCE_ops = \<lparr>update_on_hit = COALESCE_update_on_hit,
                   update_on_miss = COALESCE_update_on_miss,
                   find_victim = COALESCE_find_victim, name = ''COALESCE''\<rparr>"

section \<open>Simulator\<close>

record 'p Simulator =
  policy :: 'p
  cache :: "CacheLine list list"
  hits :: i32
  misses :: i32
  coherence_traffic_saved :: i32

definition Simulator_init :: "'p \<Rightarrow> 'p Simulator" where
  "Simulator_init p =
     \<lparr>policy = p, cache = replicate NUM_SETS (replicate WAYS CacheLine_default),
      hits = 0, misses = 0, coherence_traffic_saved = 0\<rparr>"

definition set_index :: "u64 \<Rightarrow> nat" where
  "set_index addr = unat ((addr div 64) mod word_of_nat NUM_SETS)"

text \<open>The hit loop: the first way holding a valid line with the tag.\<close>

definition find_hit :: "CacheLine list \<Rightarrow> u64 \<Rightarrow> nat option" where
  "find_hit cset tg = find (\<lambda>w. valid (cset ! w) \<and> tag (cset ! w) = tg) [0..<WAYS]"

text \<open>
  \<open>access\<close> makes no test on the way that \<open>find_victim\<close> returns before the store
  \<open>cache[set_idx][victim_way] = ...\<close>. Every row has \<open>WAYS\<close> entries, so a way outside
  \<open>[0, WAYS)\<close> makes that store an out-of-range write, the fault \<open>OutOfBoundsStore\<close>.
\<close>

definition access ::
  "'p ReplacementPolicy \<Rightarrow> 'p Simulator \<Rightarrow> u64 \<Rightarrow> u64 \<Rightarrow> int \<Rightarrow> MESI_State \<Rightarrow> fault + 'p Simulator" where
  "access ops sim addr p_c sh st =
     (let set_idx = set_index addr; tg = addr in
      case find_hit (cache sim ! set_idx) tg of
        Some w \<Rightarrow>
          let line = cache sim ! set_idx ! w;
              sim = sim\<lparr>hits := hits sim + 1\<rparr>;
              sim = sim\<lparr>policy := update_on_hit ops (policy sim) set_idx w line\<rparr>
          in Inr (if state line = MODIFIED \<or> sharers line > 1
                  then sim\<lparr>coherence_traffic_saved := coherence_traffic_saved sim + 1\<rparr>
                  else sim)
      | None \<Rightarrow>
          let sim = sim\<lparr>misses := misses sim + 1\<rparr> in
          case find_victim ops (policy sim) set_idx (cache sim ! set_idx) p_c sh st of
            Inl f \<Rightarrow> Inl f
          | Inr (victim_way, p') \<Rightarrow>
              if victim_way < 0 \<or> int WAYS \<le> victim_way
              then Inl (OutOfBoundsStore set_idx victim_way)
              else
                let line = \<lparr>valid = True, tag = tg, pc = p_c, sharers = sh, state = st,
                            lru_stack = 0, rrpv = 3\<rparr>;
                    row = (cache sim ! set_idx)[nat victim_way := line]
                in Inr (sim\<lparr>cache := (cache sim)[set_idx := row],
                            policy := update_on_miss ops p' set_idx (nat victim_way)\<rparr>))"

text \<open>A sequence of \<open>access\<close> calls; a fault ends the run.\<close>

fun run ::
  "'p ReplacementPolicy \<Rightarrow> 'p Simulator \<Rightarrow> (u64 \<times> u64 \<times> int \<times> MESI_State) list
     \<Rightarrow> fault + 'p Simulator" where
  "run ops sim [] = Inr sim"
| "run ops sim ((addr, p_c, sh, st) # as) =
     (case access ops sim addr p_c sh st of
        Inl f \<Rightarrow> Inl f
      | Inr sim' \<Rightarrow> run ops sim' as)"

text \<open>
  \<open>print_stats\<close> prints the name, \<open>100.0 * hits / (hits + misses)\<close> and the
  coherence-win count. The sum \<open>hits + misses\<close> is an \<open>int\<close> addition, converted to
  \<open>double\<close> afterwards; the quotient is a \<open>double\<close> division with no test on the divisor.
  Of the \<open>double\<close> only the case distinction of IEEE 754 division is modelled: a zero
  divisor gives NaN for a zero dividend and an infinity otherwise; any other quotient is
  kept exact (rounding is not modelled).
\<close>

datatype fp_value = Finite rat | NaN | Infinity bool

definition fp_div :: "rat \<Rightarrow> rat \<Rightarrow> fp_value" where
  "fp_div x y = (if y = 0 then (if x = 0 then NaN else Infinity (x < 0)) else Finite (x / y))"

definition print_stats :: "'p ReplacementPolicy \<Rightarrow> 'p Simulator \<Rightarrow> string \<times> fp_value \<times> int" where
  "print_stats ops sim =
     (name ops,
      fp_div (100 * of_int (sint (hits sim))) (of_int (sint (hits sim + misses sim))),
      sint (coherence_traffic_saved sim))"

section \<open>Invariants of the reachable states\<close>

text \<open>The constructor of \<open>Simulator\<close> gives the cache \<open>NUM_SETS\<close> rows of \<open>WAYS\<close> lines.\<close>

definition wf_cache :: "CacheLine list list \<Rightarrow> bool" where
  "wf_cache c \<longleftrightarrow> length c = NUM_SETS \<and> list_all (\<lambda>row. length row = WAYS) c"

definition has_invalid :: "CacheLine list \<Rightarrow> bool" where
  "has_invalid cset = list_ex (\<lambda>w. \<not> valid (cset ! w)) [0..<WAYS]"

text \<open>The ranks of one set are a permutation of \<open>0 .. WAYS - 1\<close>.\<close>

definition is_perm :: "int list \<Rightarrow> bool" where
  "is_perm r \<longleftrightarrow> length r = WAYS \<and> distinct r \<and> set r = {0..<int WAYS}"

text \<open>Every way holding an invalid line has a larger rank than every way holding a valid one.\<close>

definition invalid_behind :: "CacheLine list \<Rightarrow> int list \<Rightarrow> bool" where
  "invalid_behind cset r \<longleftrightarrow>
     (\<forall>w<WAYS. \<forall>v<WAYS. \<not> valid (cset ! w) \<and> valid (cset ! v) \<longrightarrow> r ! v < r ! w)"

definition LRU_inv :: "LRU_Policy Simulator \<Rightarrow> bool" where
  "LRU_inv sim \<longleftrightarrow>
     wf_cache (cache sim) \<and> length (lru_stacks (policy sim)) = NUM_SETS \<and>
     (\<forall>s<NUM_SETS. is_perm (lru_stacks (policy sim) ! s) \<and>
        invalid_behind (cache sim ! s) (lru_stacks (policy sim) ! s))"

text \<open>
  SRRIP: re-reference values stay in \<open>0 .. 3\<close>, and while a set still has an invalid
  line no valid line of it has reached the value 3.
\<close>

definition SRRIP_inv :: "SRRIP_Policy Simulator \<Rightarrow> bool" where
  "SRRIP_inv sim \<longleftrightarrow>
     wf_cache (cache sim) \<and> length (rrpv_bits (policy sim)) = NUM_SETS \<and>
     (\<forall>s<NUM_SETS. length (rrpv_bits (policy sim) ! s) = WAYS \<and>
        list_all (\<lambda>v. 0 \<le> v \<and> v \<le> 3) (rrpv_bits (policy sim) ! s) \<and>
        (has_invalid (cache sim ! s) \<longrightarrow>
           (\<forall>v<WAYS. valid (cache sim ! s ! v) \<longrightarrow> rrpv_bits (policy sim) ! s ! v < 3)))"

text \<open>
  COALESCE: the weights are in range, the per-set vectors have \<open>NUM_SETS\<close> entries, and
  each sampler vector is the \<open>SAMPLER_SIZE\<close> default entries of the constructor followed by
  the records pushed since.
\<close>

definition COALESCE_inv :: "COALESCE_Policy Simulator \<Rightarrow> bool" where
  "COALESCE_inv sim \<longleftrightarrow>
     wf_cache (cache sim) \<and> weights_ok (brain (policy sim)) \<and>
     length (samplers (policy sim)) = NUM_SETS \<and>
     is_sampled (policy sim) = map (\<lambda>i. i mod SAMPLING_RATE = 0) [0..<NUM_SETS] \<and>
     (\<forall>t<NUM_SETS. \<exists>es. samplers (policy sim) ! t = replicate SAMPLER_SIZE SamplerEntry_default @ es \<and>
        list_all s_valid es)"

section \<open>Properties of the PerceptronBrain\<close>

lemma get_hash_less: "get_hash p sh st < PERCEPTRON_TABLE_SIZE"
proof -
  have "(x :: u64) mod 4096 < 4096" for x
    by (rule word_mod_less_divisor) simp
  then have "unat ((x :: u64) mod 4096) < 4096" for x
    by (simp add: word_less_nat_alt)
  then show ?thesis
    by (simp add: get_hash_def PERCEPTRON_TABLE_SIZE_def Let_def)
qed

lemma weights_ok_init: "weights_ok PerceptronBrain_init"
  by (simp add: weights_ok_def PerceptronBrain_init_def list_all_iff)

lemma list_all_update: "list_all P xs \<Longrightarrow> P v \<Longrightarrow> list_all P (xs[i := v])"
  by (induction xs arbitrary: i) (auto split: nat.splits)

lemma weights_ok_nth:
  "weights_ok b \<Longrightarrow> i < PERCEPTRON_TABLE_SIZE \<Longrightarrow> - 128 \<le> weights b ! i \<and> weights b ! i \<le> 127"
  by (simp add: weights_ok_def list_all_length)

lemma weights_ok_train: "weights_ok b \<Longrightarrow> weights_ok (train b p sh st positive)"
proof -
  assume ok: "weights_ok b"
  have r: "- 128 \<le> weights b ! get_hash p sh st \<and> weights b ! get_hash p sh st \<le> 127"
    using ok get_hash_less by (rule weights_ok_nth)
  show ?thesis
    using ok r by (auto simp: train_def Let_def weights_ok_def intro!: list_all_update)
qed

lemma weights_ok_train_all: "weights_ok b \<Longrightarrow> weights_ok (train_all b cs)"
  by (induction b cs rule: train_all.induct) (simp_all add: weights_ok_train)

lemma train_weight_positive:
  "weights_ok b \<Longrightarrow>
   weights (train b p sh st True) ! get_hash p sh st = min 127 (weights b ! get_hash p sh st + 1)"
  using get_hash_less [of p sh st] weights_ok_nth [of b "get_hash p sh st"]
  by (auto simp: train_def Let_def weights_ok_def)

lemma train_weight_negative:
  "weights_ok b \<Longrightarrow>
   weights (train b p sh st False) ! get_hash p sh st = max (- 128) (weights b ! get_hash p sh st - 1)"
  using get_hash_less [of p sh st] weights_ok_nth [of b "get_hash p sh st"]
  by (auto simp: train_def Let_def weights_ok_def)

section \<open>Constants and indices\<close>

lemma WAYS_pos: "0 < WAYS"
  by (simp add: WAYS_def)

lemma NUM_SETS_pos: "0 < NUM_SETS"
  by (simp add: NUM_SETS_def)

lemma set_index_less: "set_index addr < NUM_SETS"
proof -
  have "(x :: u64) mod 64 < 64" for x
    by (rule word_mod_less_divisor) simp
  then have "unat ((x :: u64) mod 64) < 64" for x
    by (simp add: word_less_nat_alt)
  then show ?thesis
    by (simp add: set_index_def NUM_SETS_def)
qed

section \<open>The hit loop\<close>

lemma find_hit_Some:
  "find_hit cset tg = Some w \<Longrightarrow> w < WAYS \<and> valid (cset ! w) \<and> tag (cset ! w) = tg"
  by (auto simp: find_hit_def find_Some_iff)

lemma find_hit_None:
  "find_hit cset tg = None \<Longrightarrow> w < WAYS \<Longrightarrow> \<not> (valid (cset ! w) \<and> tag (cset ! w) = tg)"
  by (auto simp: find_hit_def find_None_iff)

lemma find_hit_exists:
  "w < WAYS \<Longrightarrow> valid (cset ! w) \<Longrightarrow> tag (cset ! w) = tg \<Longrightarrow> \<exists>h\<le>w. find_hit cset tg = Some h"
proof -
  assume w: "w < WAYS" "valid (cset ! w)" "tag (cset ! w) = tg"
  show ?thesis
  proof (cases "find_hit cset tg")
    case None
    with w show ?thesis by (auto dest: find_hit_None)
  next
    case (Some h)
    have "h \<le> w"
    proof (rule ccontr)
      assume "\<not> h \<le> w"
      then have "w < h" by simp
      with Some w show False
        by (auto simp: find_hit_def find_Some_iff)
    qed
    with Some show ?thesis by simp
  qed
qed

section \<open>The two paths of access\<close>

lemma access_hit:
  "find_hit (cache sim ! set_index addr) addr = Some w \<Longrightarrow>
   access ops sim addr p_c sh st =
     Inr (sim\<lparr>hits := hits sim + 1,
              policy := update_on_hit ops (policy sim) (set_index addr) w
                          (cache sim ! set_index addr ! w),
              coherence_traffic_saved := coherence_traffic_saved sim +
                (if state (cache sim ! set_index addr ! w) = MODIFIED \<or>
                    sharers (cache sim ! set_index addr ! w) > 1 then 1 else 0)\<rparr>)"
  by (simp add: access_def Let_def)

lemma access_miss:
  "find_hit (cache sim ! set_index addr) addr = None \<Longrightarrow>
   find_victim ops (policy sim) (set_index addr) (cache sim ! set_index addr) p_c sh st = Inr (v, p') \<Longrightarrow>
   0 \<le> v \<Longrightarrow> v < int WAYS \<Longrightarrow>
   access ops sim addr p_c sh st =
     Inr (sim\<lparr>misses := misses sim + 1,
              cache := (cache sim)[set_index addr := (cache sim ! set_index addr)
                 [nat v := \<lparr>valid = True, tag = addr, pc = p_c, sharers = sh, state = st,
                             lru_stack = 0, rrpv = 3\<rparr>]],
              policy := update_on_miss ops p' (set_index addr) (nat v)\<rparr>)"
  by (simp add: access_def Let_def)

lemma access_miss_fault:
  "find_hit (cache sim ! set_index addr) addr = None \<Longrightarrow>
   find_victim ops (policy sim) (set_index addr) (cache sim ! set_index addr) p_c sh st = Inl f \<Longrightarrow>
   access ops sim addr p_c sh st = Inl f"
  by (simp add: access_def Let_def)

lemma access_miss_out_of_range:
  "find_hit (cache sim ! set_index addr) addr = None \<Longrightarrow>
   find_victim ops (policy sim) (set_index addr) (cache sim ! set_index addr) p_c sh st = Inr (v, p') \<Longrightarrow>
   v < 0 \<or> int WAYS \<le> v \<Longrightarrow>
   access ops sim addr p_c sh st = Inl (OutOfBoundsStore (set_index addr) v)"
  by (auto simp add: access_def Let_def)

lemma access_Inr_cases:
  assumes "access ops sim addr p_c sh st = Inr sim'"
  obtains (hit) w where "find_hit (cache sim ! set_index addr) addr = Some w"
  | (miss) v p' where "find_hit (cache sim ! set_index addr) addr = None"
      "find_victim ops (policy sim) (set_index addr) (cache sim ! set_index addr) p_c sh st = Inr (v, p')"
      "0 \<le> v" "v < int WAYS"
proof (cases "find_hit (cache sim ! set_index addr) addr")
  case (Some w)
  then show ?thesis by (rule hit)
next
  case None
  show ?thesis
  proof (cases "find_victim ops (policy sim) (set_index addr) (cache sim ! set_index addr) p_c sh st")
    case (Inl f)
    with None assms show ?thesis by (simp add: access_miss_fault)
  next
    case (Inr r)
    obtain v p' where r: "r = (v, p')" by (cases r)
    show ?thesis
    proof (cases "v < 0 \<or> int WAYS \<le> v")
      case True
      with None Inr r assms show ?thesis by (simp add: access_miss_out_of_range)
    next
      case False
      with None Inr r show ?thesis by (intro miss [of v p']) auto
    qed
  qed
qed

section \<open>The initial simulator\<close>

lemma find_hit_init: "find_hit (replicate WAYS CacheLine_default) tg = None"
  by (auto simp: find_hit_def find_None_iff CacheLine_default_def)

lemma cache_init_row: "s < NUM_SETS \<Longrightarrow> cache (Simulator_init p) ! s = replicate WAYS CacheLine_default"
  by (simp add: Simulator_init_def)

lemma LRU_find_victim_range:
  "\<exists>w. LRU_find_victim p s cset p_c sh st = Inr (int w, p) \<and> w < WAYS"
proof (cases "find (\<lambda>w. \<not> valid (cset ! w) \<or> lru_stacks p ! s ! w = int WAYS - 1) [0..<WAYS]")
  case None
  then show ?thesis
    using WAYS_pos by (auto simp: LRU_find_victim_def intro: exI [of _ 0])
next
  case (Some w)
  then have "w < WAYS" by (auto simp: find_Some_iff)
  with Some show ?thesis by (simp add: LRU_find_victim_def)
qed

lemma LRU_access_total: "\<exists>sim'. access LRU_ops sim addr p_c sh st = Inr sim'"
proof (cases "find_hit (cache sim ! set_index addr) addr")
  case (Some w)
  then show ?thesis by (simp add: access_hit)
next
  case None
  obtain w where w: "LRU_find_victim (policy sim) (set_index addr) (cache sim ! set_index addr) p_c sh st
      = Inr (int w, policy sim)" "w < WAYS"
    using LRU_find_victim_range by blast
  then have "find_victim LRU_ops (policy sim) (set_index addr) (cache sim ! set_index addr) p_c sh st
      = Inr (int w, policy sim)"
    by (simp add: LRU_ops_def)
  from access_miss [OF None this] w(2) show ?thesis by simp
qed

section \<open>Statistics\<close>

text \<open>
  The sum of the counters is taken in 32 bits before the division: with \<open>2^31 - 1\<close> hits
  and one miss the divisor is \<open>- 2^31\<close>.
\<close>

lemma print_stats_divisor_wraps:
  "hits sim = 2147483647 \<Longrightarrow> misses sim = 1 \<Longrightarrow>
   fst (snd (print_stats ops sim)) = Finite (100 * 2147483647 / (- 2147483648))"
  by (simp add: print_stats_def fp_div_def)

text \<open>
  Claim C1 (as amended). \<open>print_stats\<close> has no guard for a simulator on which no access
  has been performed: with both counters 0, as the constructor leaves them, it carries out
  the division \<open>100.0 * hits / (hits + misses)\<close> with the divisor 0, and the hit rate it
  reports is the result of \<open>0.0 / 0\<close>, NaN, not a sentinel.
\<close>

theorem C1_hit_rate_unguarded:
  assumes "hits sim = 0" and "misses sim = 0"
  shows "sint (hits sim + misses sim) = 0 \<and>
         print_stats ops sim = (name ops, fp_div 0 0, sint (coherence_traffic_saved sim)) \<and>
         fp_div 0 0 = NaN \<and>
         hits (Simulator_init p) = 0 \<and> misses (Simulator_init p) = 0"
proof -
  from assms have "sint (hits sim + misses sim) = 0" by simp
  moreover from assms
  have "print_stats ops sim = (name ops, fp_div 0 0, sint (coherence_traffic_saved sim))"
    by (simp add: print_stats_def)
  moreover have "fp_div 0 0 = NaN" by (simp add: fp_div_def)
  moreover have "hits (Simulator_init p) = 0" "misses (Simulator_init p) = 0"
    by (simp_all add: Simulator_init_def)
  ultimately show ?thesis by simp
qed

theorem C1_hit_rate_unguarded_witness:
  "hits (Simulator_init SRRIP_init) = 0 \<and> misses (Simulator_init SRRIP_init) = 0 \<and>
   print_stats SRRIP_ops (Simulator_init SRRIP_init) = (''SRRIP'', NaN, 0)"
proof -
  have h: "hits (Simulator_init SRRIP_init) = 0" and m: "misses (Simulator_init SRRIP_init) = 0"
    by (simp_all add: Simulator_init_def)
  have c: "coherence_traffic_saved (Simulator_init SRRIP_init) = 0"
    by (simp add: Simulator_init_def)
  from C1_hit_rate_unguarded [OF h m, of SRRIP_ops SRRIP_init] h m show ?thesis
    by (simp add: c SRRIP_ops_def)
qed

theorem C1_zero_access_counterexample:
  "hits (Simulator_init LRU_init) + misses (Simulator_init LRU_init) = 0 \<and>
   fst (snd (print_stats LRU_ops (Simulator_init LRU_init))) = fp_div 0 0 \<and>
   fp_div 0 0 = NaN \<and> NaN \<noteq> Finite 0"
  by (simp add: print_stats_def Simulator_init_def fp_div_def)

section \<open>In-place loops over the ways\<close>

lemma fold_ways_length:
  "length (fold (\<lambda>w r. if P (r ! w) then r[w := g (r ! w)] else r) [0..<n] r) = length r"
  by (induction n) simp_all

lemma fold_ways_nth:
  "i < length r \<Longrightarrow>
   fold (\<lambda>w r. if P (r ! w) then r[w := g (r ! w)] else r) [0..<n] r ! i =
     (if i < n \<and> P (r ! i) then g (r ! i) else r ! i)"
proof (induction n)
  case 0
  then show ?case by simp
next
  case (Suc n)
  then show ?case
    by (cases "i = n") (auto simp: fold_ways_length nth_list_update)
qed

lemma fold_ways_map:
  "length r = n \<Longrightarrow>
   fold (\<lambda>w r. if P (r ! w) then r[w := g (r ! w)] else r) [0..<n] r =
     map (\<lambda>x. if P x then g x else x) r"
  by (rule nth_equalityI) (simp_all add: fold_ways_length fold_ways_nth)

section \<open>LRU: the recency ranks\<close>

lemma LRU_update_on_miss_eq: "LRU_update_on_miss p s w = LRU_update_on_hit p s w line"
  by (simp add: LRU_update_on_miss_def LRU_update_on_hit_def)

lemma LRU_update_on_hit_row:
  assumes "s < length (lru_stacks p)" "length (lru_stacks p ! s) = WAYS"
  shows "lru_stacks (LRU_update_on_hit p s w line) ! s =
           (map (\<lambda>x. if x < lru_stacks p ! s ! w then x + 1 else x) (lru_stacks p ! s))[w := 0]"
  using assms
  by (simp add: LRU_update_on_hit_def Let_def
      fold_ways_map [where P = "\<lambda>x. x < lru_stacks p ! s ! w" and g = "\<lambda>x. x + 1"])

lemma LRU_update_on_hit_other:
  "s' \<noteq> s \<Longrightarrow> lru_stacks (LRU_update_on_hit p s w line) ! s' = lru_stacks p ! s'"
  by (simp add: LRU_update_on_hit_def Let_def)

lemma LRU_update_on_hit_length:
  "length (lru_stacks (LRU_update_on_hit p s w line)) = length (lru_stacks p)"
  by (simp add: LRU_update_on_hit_def Let_def)

lemma is_perm_nth: "is_perm r \<Longrightarrow> i < WAYS \<Longrightarrow> 0 \<le> r ! i \<and> r ! i < int WAYS"
proof -
  assume p: "is_perm r" and i: "i < WAYS"
  from p have "length r = WAYS" by (simp add: is_perm_def)
  with i have "r ! i \<in> set r" by simp
  moreover from p have "set r = {0..<int WAYS}" by (simp add: is_perm_def)
  ultimately have "r ! i \<in> {0..<int WAYS}" by simp
  then show ?thesis by simp
qed

lemma is_perm_inj: "is_perm r \<Longrightarrow> i < WAYS \<Longrightarrow> j < WAYS \<Longrightarrow> r ! i = r ! j \<longleftrightarrow> i = j"
  by (simp add: is_perm_def nth_eq_iff_index_eq)

lemma touch_nth:
  "length r = WAYS \<Longrightarrow> i < WAYS \<Longrightarrow>
   (map (\<lambda>x. if x < old then x + 1 else x) r)[w := 0] ! i =
     (if i = w then 0 else if r ! i < old then r ! i + 1 else r ! i)"
  by (simp add: nth_list_update)

lemma touch_perm:
  assumes p: "is_perm r" and w: "w < WAYS"
  shows "is_perm ((map (\<lambda>x. if x < r ! w then x + 1 else x) r)[w := 0])"
proof -
  let ?old = "r ! w"
  let ?g = "\<lambda>x. if x < ?old then x + 1 else if x = ?old then 0 else x"
  have len: "length r = WAYS" and d: "distinct r" and s: "set r = {0..<int WAYS}"
    using p by (simp_all add: is_perm_def)
  have old: "0 \<le> ?old" "?old < int WAYS"
    using is_perm_nth [OF p w] by simp_all
  have eq: "(map (\<lambda>x. if x < ?old then x + 1 else x) r)[w := 0] = map ?g r"
  proof (rule nth_equalityI)
    show "length ((map (\<lambda>x. if x < ?old then x + 1 else x) r)[w := 0]) = length (map ?g r)"
      by simp
  next
    fix i assume "i < length ((map (\<lambda>x. if x < ?old then x + 1 else x) r)[w := 0])"
    then have i: "i < WAYS" by (simp add: len)
    show "(map (\<lambda>x. if x < ?old then x + 1 else x) r)[w := 0] ! i = map ?g r ! i"
      using i len is_perm_inj [OF p i w] by (simp add: nth_list_update)
  qed
  have inj: "inj_on ?g (set r)"
    unfolding s by (rule inj_onI) (auto split: if_splits)
  have img: "?g ` {0..<int WAYS} = {0..<int WAYS}"
  proof (rule set_eqI)
    fix y
    show "y \<in> ?g ` {0..<int WAYS} \<longleftrightarrow> y \<in> {0..<int WAYS}"
    proof
      assume "y \<in> ?g ` {0..<int WAYS}"
      then show "y \<in> {0..<int WAYS}" using old by (auto split: if_splits)
    next
      assume y: "y \<in> {0..<int WAYS}"
      from y have "0 \<le> y" by simp
      then consider "y = 0" | "0 < y" "y \<le> ?old" | "?old < y" by linarith
      then show "y \<in> ?g ` {0..<int WAYS}"
      proof cases
        case 1
        with old show ?thesis
          by (intro image_eqI [where x = "r ! w"]) auto
      next
        case 2
        with y show ?thesis
          by (intro image_eqI [where x = "y - 1"]) auto
      next
        case 3
        with y show ?thesis
          by (intro image_eqI [where x = y]) auto
      qed
    qed
  qed
  show ?thesis
    unfolding eq using len d inj img s by (simp add: is_perm_def distinct_map)
qed

lemma has_invalid_iff: "has_invalid cset \<longleftrightarrow> (\<exists>w<WAYS. \<not> valid (cset ! w))"
  by (auto simp: has_invalid_def list_ex_iff)

lemma wf_cache_row: "wf_cache c \<Longrightarrow> s < NUM_SETS \<Longrightarrow> length (c ! s) = WAYS"
  by (simp add: wf_cache_def list_all_length)

lemma wf_cache_update:
  "wf_cache c \<Longrightarrow> length row = WAYS \<Longrightarrow> wf_cache (c[s := row])"
  by (cases "s < length c") (auto simp: wf_cache_def list_all_length nth_list_update)

lemma wf_cache_init: "wf_cache (cache (Simulator_init p))"
  by (simp add: wf_cache_def Simulator_init_def list_all_length)

lemma invalid_behind_hit:
  assumes J: "invalid_behind cset r" and p: "is_perm r" and h: "h < WAYS" and vh: "valid (cset ! h)"
  shows "invalid_behind cset ((map (\<lambda>x. if x < r ! h then x + 1 else x) r)[h := 0])"
  unfolding invalid_behind_def
proof (intro allI impI)
  fix w v assume w: "w < WAYS" and v: "v < WAYS"
    and wv: "\<not> valid (cset ! w) \<and> valid (cset ! v)"
  have len: "length r = WAYS" using p by (simp add: is_perm_def)
  from wv vh have wh: "w \<noteq> h" by auto
  from J w h wv vh have 1: "r ! h < r ! w" by (auto simp: invalid_behind_def)
  from J w v wv have 2: "r ! v < r ! w" by (auto simp: invalid_behind_def)
  from is_perm_nth [OF p h] have 3: "0 \<le> r ! h" by simp
  show "(map (\<lambda>x. if x < r ! h then x + 1 else x) r)[h := 0] ! v
      < (map (\<lambda>x. if x < r ! h then x + 1 else x) r)[h := 0] ! w"
    using wh 1 2 3 w v h len by (simp add: nth_list_update)
qed

lemma invalid_behind_install:
  assumes J: "invalid_behind cset r" and p: "is_perm r" and u: "u < WAYS"
    and len: "length cset = WAYS" and l: "valid l"
    and free: "has_invalid cset \<Longrightarrow> \<not> valid (cset ! u)"
  shows "invalid_behind (cset[u := l]) ((map (\<lambda>x. if x < r ! u then x + 1 else x) r)[u := 0])"
  unfolding invalid_behind_def
proof (intro allI impI)
  fix w v assume w: "w < WAYS" and v: "v < WAYS"
    and wv: "\<not> valid (cset[u := l] ! w) \<and> valid (cset[u := l] ! v)"
  have lr: "length r = WAYS" using p by (simp add: is_perm_def)
  from wv l u len w have wu: "w \<noteq> u" and iw: "\<not> valid (cset ! w)"
    by (auto simp: nth_list_update split: if_splits)
  from iw w have "has_invalid cset" by (auto simp: has_invalid_iff)
  then have iu: "\<not> valid (cset ! u)" by (rule free)
  from is_perm_nth [OF p u] have 0: "0 \<le> r ! u" by simp
  from is_perm_nth [OF p w] have 1: "0 \<le> r ! w" by simp
  from is_perm_inj [OF p w u] wu have 2: "r ! w \<noteq> r ! u" by simp
  show "(map (\<lambda>x. if x < r ! u then x + 1 else x) r)[u := 0] ! v
      < (map (\<lambda>x. if x < r ! u then x + 1 else x) r)[u := 0] ! w"
  proof (cases "v = u")
    case True
    with wu 0 1 2 w v u lr show ?thesis by (simp add: nth_list_update)
  next
    case False
    with wv len v have vv: "valid (cset ! v)" by (simp add: nth_list_update)
    from J v u vv iu have 3: "r ! v < r ! u" by (auto simp: invalid_behind_def)
    from J v w vv iw have 4: "r ! v < r ! w" by (auto simp: invalid_behind_def)
    from False wu 2 3 4 w v u lr show ?thesis by (simp add: nth_list_update)
  qed
qed

text \<open>With an invalid line in the set, the first way the scan stops at holds one.\<close>

lemma LRU_find_victim_invalid:
  assumes J: "invalid_behind cset (lru_stacks p ! s)" and pm: "is_perm (lru_stacks p ! s)"
    and inv: "has_invalid cset"
  shows "\<exists>w<WAYS. LRU_find_victim p s cset p_c sh st = Inr (int w, p) \<and> \<not> valid (cset ! w)"
proof -
  let ?P = "\<lambda>w. \<not> valid (cset ! w) \<or> lru_stacks p ! s ! w = int WAYS - 1"
  from inv obtain w' where w': "w' < WAYS" "\<not> valid (cset ! w')"
    by (auto simp: has_invalid_iff)
  then have "find ?P [0..<WAYS] \<noteq> None"
    by (auto simp: find_None_iff)
  then obtain w where f: "find ?P [0..<WAYS] = Some w" by auto
  then have w: "w < WAYS" and Pw: "?P w" by (auto simp: find_Some_iff)
  have "\<not> valid (cset ! w)"
  proof
    assume v: "valid (cset ! w)"
    with Pw have "lru_stacks p ! s ! w = int WAYS - 1" by simp
    moreover from J w w' v have "lru_stacks p ! s ! w < lru_stacks p ! s ! w'"
      by (auto simp: invalid_behind_def)
    moreover from is_perm_nth [OF pm w'(1)] have "lru_stacks p ! s ! w' < int WAYS" by simp
    ultimately show False by simp
  qed
  with f w show ?thesis by (auto simp: LRU_find_victim_def)
qed

lemma LRU_inv_init: "LRU_inv (Simulator_init LRU_init)"
proof -
  have "is_perm (map int [0..<WAYS])"
    by (simp add: is_perm_def distinct_map image_int_atLeastLessThan)
  then show ?thesis
    using wf_cache_init [of LRU_init]
    by (simp add: LRU_inv_def) (simp add: Simulator_init_def LRU_init_def invalid_behind_def CacheLine_default_def)
qed

lemma LRU_inv_touch:
  assumes inv: "LRU_inv sim" and s: "s < NUM_SETS" and w: "w < WAYS"
    and p': "policy sim' = LRU_update_on_hit (policy sim) s w line"
    and c': "cache sim' = cache sim \<and> valid (cache sim ! s ! w) \<or>
             (\<exists>l. valid l \<and> cache sim' = (cache sim)[s := (cache sim ! s)[w := l]] \<and>
                  (has_invalid (cache sim ! s) \<longrightarrow> \<not> valid (cache sim ! s ! w)))"
  shows "LRU_inv sim'"
proof -
  let ?p = "policy sim" and ?c = "cache sim"
  from inv have wf: "wf_cache ?c" and len: "length (lru_stacks ?p) = NUM_SETS"
    and pm: "\<And>t. t < NUM_SETS \<Longrightarrow> is_perm (lru_stacks ?p ! t)"
    and J: "\<And>t. t < NUM_SETS \<Longrightarrow> invalid_behind (?c ! t) (lru_stacks ?p ! t)"
    by (simp_all add: LRU_inv_def)
  have lc: "length ?c = NUM_SETS" using wf by (simp add: wf_cache_def)
  have lrow: "length (?c ! s) = WAYS" using wf s by (rule wf_cache_row)
  have lr: "length (lru_stacks ?p ! s) = WAYS" using pm [OF s] by (simp add: is_perm_def)
  have row': "lru_stacks (policy sim') ! s =
      (map (\<lambda>x. if x < lru_stacks ?p ! s ! w then x + 1 else x) (lru_stacks ?p ! s))[w := 0]"
    unfolding p' using s len lr by (simp add: LRU_update_on_hit_row)
  have "wf_cache (?c[s := (?c ! s)[w := l]])" for l
    using wf by (rule wf_cache_update) (simp add: lrow)
  with c' wf have wf': "wf_cache (cache sim')"
    by (elim disjE conjE exE) simp_all
  have len': "length (lru_stacks (policy sim')) = NUM_SETS"
    unfolding p' using len by (simp add: LRU_update_on_hit_length)
  have "is_perm (lru_stacks (policy sim') ! t) \<and>
        invalid_behind (cache sim' ! t) (lru_stacks (policy sim') ! t)" if t: "t < NUM_SETS" for t
  proof (cases "t = s")
    case False
    then have "lru_stacks (policy sim') ! t = lru_stacks ?p ! t"
      unfolding p' by (simp add: LRU_update_on_hit_other)
    moreover from False c' have "cache sim' ! t = ?c ! t" by auto
    ultimately show ?thesis using pm [OF t] J [OF t] by simp
  next
    case True
    have 1: "is_perm (lru_stacks (policy sim') ! s)"
      unfolding row' using pm [OF s] w by (rule touch_perm)
    from c' have 2: "invalid_behind (cache sim' ! s) (lru_stacks (policy sim') ! s)"
    proof (elim disjE conjE exE)
      assume "cache sim' = ?c" "valid (?c ! s ! w)"
      then show ?thesis
        unfolding row' using invalid_behind_hit [OF J [OF s] pm [OF s] w] by simp
    next
      fix l assume l: "valid l" and c: "cache sim' = ?c[s := (?c ! s)[w := l]]"
        and f: "has_invalid (?c ! s) \<longrightarrow> \<not> valid (?c ! s ! w)"
      from c s lc have "cache sim' ! s = (?c ! s)[w := l]" by simp
      then show ?thesis
        unfolding row' using invalid_behind_install [OF J [OF s] pm [OF s] w lrow l] f by simp
    qed
    from 1 2 True show ?thesis by simp
  qed
  with wf' len' show ?thesis by (simp add: LRU_inv_def)
qed

lemma LRU_access_inv:
  assumes inv: "LRU_inv sim" and a: "access LRU_ops sim addr p_c sh st = Inr sim'"
  shows "LRU_inv sim'"
proof -
  let ?s = "set_index addr"
  have s: "?s < NUM_SETS" by (rule set_index_less)
  from a show ?thesis
  proof (cases rule: access_Inr_cases)
    case (hit w)
    from find_hit_Some [OF hit] have w: "w < WAYS" "valid (cache sim ! ?s ! w)" by simp_all
    from access_hit [OF hit, of LRU_ops p_c sh st] a
    have "policy sim' = LRU_update_on_hit (policy sim) ?s w (cache sim ! ?s ! w)"
      and "cache sim' = cache sim"
      by (auto simp: LRU_ops_def)
    with w show ?thesis by (intro LRU_inv_touch [OF inv s w(1)]) auto
  next
    case (miss v p')
    from inv s have pm: "is_perm (lru_stacks (policy sim) ! ?s)"
      and J: "invalid_behind (cache sim ! ?s) (lru_stacks (policy sim) ! ?s)"
      by (simp_all add: LRU_inv_def)
    obtain w where w: "w < WAYS"
      "LRU_find_victim (policy sim) ?s (cache sim ! ?s) p_c sh st = Inr (int w, policy sim)"
      using LRU_find_victim_range by blast
    with miss(2) have v: "v = int w" "p' = policy sim" by (simp_all add: LRU_ops_def)
    have free: "has_invalid (cache sim ! ?s) \<longrightarrow> \<not> valid (cache sim ! ?s ! w)"
      using LRU_find_victim_invalid [OF J pm, of p_c sh st] w(2) by auto
    from access_miss [OF miss] a v
    have p: "policy sim' = LRU_update_on_hit (policy sim) ?s w CacheLine_default"
      and c: "cache sim' = (cache sim)[?s := (cache sim ! ?s)
             [w := \<lparr>valid = True, tag = addr, pc = p_c, sharers = sh, state = st,
                     lru_stack = 0, rrpv = 3\<rparr>]]"
      by (auto simp: LRU_ops_def LRU_update_on_miss_eq [of _ _ _ CacheLine_default])
    let ?l = "\<lparr>valid = True, tag = addr, pc = p_c, sharers = sh, state = st,
                lru_stack = 0, rrpv = 3\<rparr>"
    have "valid ?l \<and> cache sim' = (cache sim)[?s := (cache sim ! ?s)[w := ?l]] \<and>
          (has_invalid (cache sim ! ?s) \<longrightarrow> \<not> valid (cache sim ! ?s ! w))"
      using c free by simp
    then have "\<exists>l. valid l \<and> cache sim' = (cache sim)[?s := (cache sim ! ?s)[w := l]] \<and>
          (has_invalid (cache sim ! ?s) \<longrightarrow> \<not> valid (cache sim ! ?s ! w))"
      by (rule exI)
    then show ?thesis by (intro LRU_inv_touch [OF inv s w(1) p]) (rule disjI2)
  qed
qed

lemma LRU_run_inv: "LRU_inv sim \<Longrightarrow> run LRU_ops sim as = Inr sim' \<Longrightarrow> LRU_inv sim'"
proof (induction as arbitrary: sim)
  case Nil
  then show ?case by simp
next
  case (Cons a as)
  obtain addr p_c sh st where a: "a = (addr, p_c, sh, st)" by (cases a)
  from Cons.prems(2) a obtain s1 where
    s1: "access LRU_ops sim addr p_c sh st = Inr s1" and r: "run LRU_ops s1 as = Inr sim'"
    by (auto split: sum.splits)
  from Cons.IH [OF LRU_access_inv [OF Cons.prems(1) s1] r] show ?case .
qed

lemma LRU_run_total: "\<exists>sim'. run LRU_ops sim as = Inr sim'"
proof (induction as arbitrary: sim)
  case Nil
  then show ?case by simp
next
  case (Cons a as)
  obtain addr p_c sh st where a: "a = (addr, p_c, sh, st)" by (cases a)
  obtain s1 where "access LRU_ops sim addr p_c sh st = Inr s1"
    using LRU_access_total by blast
  with Cons.IH [of s1] a show ?case by simp
qed

text \<open>
  Claim C8. In every state that a sequence of accesses reaches from the initial LRU
  simulator, the ranks of each set are a permutation of \<open>0 .. WAYS - 1\<close>. On such a state
  \<open>update_on_hit\<close> and \<open>update_on_miss\<close> on way \<open>w\<close> leave a permutation in which \<open>w\<close> has
  rank 0, every other way whose rank was smaller than the rank of \<open>w\<close> has it incremented
  by one, and the remaining ways keep theirs.
\<close>

theorem C8_LRU_ranks_permutation:
  assumes "run LRU_ops (Simulator_init LRU_init) as = Inr sim" and "s < NUM_SETS" and "w < WAYS"
  shows "is_perm (lru_stacks (policy sim) ! s) \<and>
         is_perm (lru_stacks (LRU_update_on_hit (policy sim) s w line) ! s) \<and>
         lru_stacks (LRU_update_on_hit (policy sim) s w line) ! s ! w = 0 \<and>
         (\<forall>v<WAYS. v \<noteq> w \<longrightarrow>
            lru_stacks (LRU_update_on_hit (policy sim) s w line) ! s ! v =
              (if lru_stacks (policy sim) ! s ! v < lru_stacks (policy sim) ! s ! w
               then lru_stacks (policy sim) ! s ! v + 1 else lru_stacks (policy sim) ! s ! v)) \<and>
         LRU_update_on_miss (policy sim) s w = LRU_update_on_hit (policy sim) s w line"
proof -
  have inv: "LRU_inv sim"
    using LRU_inv_init assms(1) by (rule LRU_run_inv)
  with assms(2) have pm: "is_perm (lru_stacks (policy sim) ! s)"
    and len: "length (lru_stacks (policy sim)) = NUM_SETS"
    by (simp_all add: LRU_inv_def)
  from pm have lr: "length (lru_stacks (policy sim) ! s) = WAYS" by (simp add: is_perm_def)
  have row: "lru_stacks (LRU_update_on_hit (policy sim) s w line) ! s =
      (map (\<lambda>x. if x < lru_stacks (policy sim) ! s ! w then x + 1 else x)
         (lru_stacks (policy sim) ! s))[w := 0]"
    using assms(2) len lr by (simp add: LRU_update_on_hit_row)
  have 1: "is_perm (lru_stacks (LRU_update_on_hit (policy sim) s w line) ! s)"
    unfolding row using pm assms(3) by (rule touch_perm)
  have 2: "lru_stacks (LRU_update_on_hit (policy sim) s w line) ! s ! w = 0"
    unfolding row using lr assms(3) by simp
  have 3: "lru_stacks (LRU_update_on_hit (policy sim) s w line) ! s ! v =
      (if lru_stacks (policy sim) ! s ! v < lru_stacks (policy sim) ! s ! w
       then lru_stacks (policy sim) ! s ! v + 1 else lru_stacks (policy sim) ! s ! v)"
    if "v < WAYS" "v \<noteq> w" for v
    unfolding row using that lr by simp
  from pm 1 2 3 show ?thesis
    by (simp add: LRU_update_on_miss_eq [of _ _ _ line])
qed

theorem C8_LRU_ranks_permutation_witness:
  "run LRU_ops (Simulator_init LRU_init) [] = Inr (Simulator_init LRU_init) \<and>
   0 < NUM_SETS \<and> 3 < WAYS \<and>
   lru_stacks LRU_init ! 0 = [0, 1, 2, 3, 4, 5, 6, 7] \<and>
   is_perm (lru_stacks LRU_init ! 0) \<and>
   is_perm (lru_stacks (LRU_update_on_hit LRU_init 0 3 CacheLine_default) ! 0) \<and>
   lru_stacks (LRU_update_on_hit LRU_init 0 3 CacheLine_default) ! 0 ! 3 = 0 \<and>
   lru_stacks (LRU_update_on_hit LRU_init 0 3 CacheLine_default) ! 0 ! 1 = 2 \<and>
   lru_stacks (LRU_update_on_hit LRU_init 0 3 CacheLine_default) ! 0 ! 5 = 5"
proof -
  have r: "run LRU_ops (Simulator_init LRU_init) [] = Inr (Simulator_init LRU_init)"
    by simp
  have s: "0 < NUM_SETS" and w: "3 < WAYS"
    by (simp_all add: NUM_SETS_def WAYS_def)
  have row: "lru_stacks LRU_init ! 0 = [0, 1, 2, 3, 4, 5, 6, 7]"
    by (simp add: LRU_init_def NUM_SETS_def WAYS_def upt_rec)
  have p: "policy (Simulator_init LRU_init) = LRU_init"
    by (simp add: Simulator_init_def)
  from C8_LRU_ranks_permutation [OF r s w, of CacheLine_default] r s w row show ?thesis
    by (simp add: p WAYS_def)
qed

section \<open>SRRIP: the aging loop\<close>

lemma SRRIP_age_map:
  "length row = WAYS \<Longrightarrow> SRRIP_age row = map (\<lambda>x. if x < 3 then x + 1 else x) row"
  unfolding SRRIP_age_def
  by (rule fold_ways_map [where P = "\<lambda>x. x < 3" and g = "\<lambda>x. x + 1"])

lemma SRRIP_age_length: "length (SRRIP_age row) = length row"
  unfolding SRRIP_age_def
  by (rule fold_ways_length [where P = "\<lambda>x. x < 3" and g = "\<lambda>x. x + 1"])

lemma SRRIP_age_range:
  "length row = WAYS \<Longrightarrow> list_all (\<lambda>v. 0 \<le> v \<and> v \<le> 3) row \<Longrightarrow>
   list_all (\<lambda>v. 0 \<le> v \<and> v \<le> 3) (SRRIP_age row)"
  by (auto simp: SRRIP_age_map list_all_iff)

lemma SRRIP_age_le:
  "length row = WAYS \<Longrightarrow> list_all (\<lambda>v. v \<le> 3) row \<Longrightarrow> list_all (\<lambda>v. v \<le> 3) (SRRIP_age row)"
  by (auto simp: SRRIP_age_map list_all_iff)

lemma SRRIP_ages_length: "length ((SRRIP_age ^^ k) row) = length row"
  by (induction k) (simp_all add: SRRIP_age_length)

lemma SRRIP_ages_range:
  "length row = WAYS \<Longrightarrow> list_all (\<lambda>v. 0 \<le> v \<and> v \<le> 3) row \<Longrightarrow>
   list_all (\<lambda>v. 0 \<le> v \<and> v \<le> 3) ((SRRIP_age ^^ k) row)"
  by (induction k) (simp_all add: SRRIP_age_range SRRIP_ages_length)

lemma SRRIP_scan_Some:
  "SRRIP_scan cset row = Some w \<Longrightarrow> w < WAYS \<and> (\<not> valid (cset ! w) \<or> row ! w = 3)"
  by (auto simp: SRRIP_scan_def find_Some_iff)

lemma SRRIP_scan_None:
  "SRRIP_scan cset row = None \<Longrightarrow> w < WAYS \<Longrightarrow> valid (cset ! w) \<and> row ! w \<noteq> 3"
  by (auto simp: SRRIP_scan_def find_None_iff)

lemma SRRIP_scan_invalid:
  "has_invalid cset \<Longrightarrow> \<exists>w. SRRIP_scan cset row = Some w"
  by (cases "SRRIP_scan cset row") (auto simp: has_invalid_iff dest: SRRIP_scan_None)

text \<open>A failed scan of values that are at most 3: every value is below 3, and aging adds one.\<close>

lemma SRRIP_age_Min:
  assumes len: "length row = WAYS" and le: "list_all (\<lambda>v. v \<le> 3) row"
    and none: "SRRIP_scan cset row = None"
  shows "Min (set (SRRIP_age row)) = Min (set row) + 1 \<and> Min (set row) < 3"
proof -
  have lt: "x < 3" if "x \<in> set row" for x
  proof -
    from that obtain i where i: "i < length row" "row ! i = x" by (auto simp: in_set_conv_nth)
    with len none have "x \<noteq> 3" by (auto dest: SRRIP_scan_None)
    moreover from le that have "x \<le> 3" by (simp add: list_all_iff)
    ultimately show ?thesis by simp
  qed
  have "0 < length row" unfolding len by (rule WAYS_pos)
  then have ne: "set row \<noteq> {}" by simp
  have "SRRIP_age row = map (\<lambda>x. x + 1) row"
    using lt by (simp add: SRRIP_age_map [OF len])
  then have "set (SRRIP_age row) = (\<lambda>x. x + 1) ` set row" by simp
  moreover have "Min ((\<lambda>x. x + 1) ` set row) = Min (set row) + 1"
    using ne by (intro mono_Min_commute [symmetric]) (auto simp: mono_def)
  moreover have "Min (set row) < 3" using ne lt by simp
  ultimately show ?thesis by simp
qed

lemma SRRIP_loop_terminates:
  assumes "length row = WAYS" and "list_all (\<lambda>v. v \<le> 3) row"
  shows "\<exists>k w. k \<le> nat (3 - Min (set row)) \<and>
           SRRIP_loop cset row = Some (w, (SRRIP_age ^^ k) row) \<and>
           SRRIP_scan cset ((SRRIP_age ^^ k) row) = Some w \<and>
           (\<forall>j<k. SRRIP_scan cset ((SRRIP_age ^^ j) row) = None)"
  using assms
proof (induction n \<equiv> "nat (3 - Min (set row))" arbitrary: row)
  case 0
  show ?case
  proof (cases "SRRIP_scan cset row")
    case None
    from SRRIP_age_Min [OF "0.prems" None] "0.hyps" show ?thesis by simp
  next
    case (Some w)
    then have "SRRIP_loop cset row = Some (w, row)"
      by (subst SRRIP_loop.simps) simp
    with Some show ?thesis by (intro exI [of _ 0] exI [of _ w]) simp
  qed
next
  case (Suc n)
  show ?case
  proof (cases "SRRIP_scan cset row")
    case (Some w)
    then have "SRRIP_loop cset row = Some (w, row)"
      by (subst SRRIP_loop.simps) simp
    with Some show ?thesis by (intro exI [of _ 0] exI [of _ w]) simp
  next
    case None
    let ?row = "SRRIP_age row"
    from SRRIP_age_Min [OF Suc.prems None] Suc.hyps(2)
    have n: "n = nat (3 - Min (set ?row))" by simp
    have len: "length ?row = WAYS" using Suc.prems(1) by (simp add: SRRIP_age_length)
    have le: "list_all (\<lambda>v. v \<le> 3) ?row" using Suc.prems by (rule SRRIP_age_le)
    from Suc.hyps(1) [OF n len le] obtain k w where
      k: "k \<le> n" and l: "SRRIP_loop cset ?row = Some (w, (SRRIP_age ^^ k) ?row)"
      and sc: "SRRIP_scan cset ((SRRIP_age ^^ k) ?row) = Some w"
      and nn: "\<forall>j<k. SRRIP_scan cset ((SRRIP_age ^^ j) ?row) = None"
      using n by auto
    have loop: "SRRIP_loop cset row = SRRIP_loop cset ?row"
      using None by (subst SRRIP_loop.simps) simp
    have "\<forall>j<Suc k. SRRIP_scan cset ((SRRIP_age ^^ j) row) = None"
    proof (intro allI impI)
      fix j assume "j < Suc k"
      then show "SRRIP_scan cset ((SRRIP_age ^^ j) row) = None"
        using None nn by (cases j) (simp_all add: funpow_swap1)
    qed
    with k l sc loop Suc.hyps(2) show ?thesis
      by (intro exI [of _ "Suc k"] exI [of _ w]) (simp add: funpow_swap1)
  qed
qed

lemma SRRIP_find_victim_result:
  assumes len: "length (rrpv_bits p ! s) = WAYS"
    and rg: "list_all (\<lambda>v. 0 \<le> v \<and> v \<le> 3) (rrpv_bits p ! s)"
  shows "\<exists>w row.
    SRRIP_find_victim p s cset p_c sh st = Inr (int w, p\<lparr>rrpv_bits := (rrpv_bits p)[s := row]\<rparr>) \<and>
    w < WAYS \<and> length row = WAYS \<and> list_all (\<lambda>v. 0 \<le> v \<and> v \<le> 3) row \<and>
    (\<not> valid (cset ! w) \<or> row ! w = 3) \<and>
    (has_invalid cset \<longrightarrow> row = rrpv_bits p ! s)"
proof -
  from rg have le: "list_all (\<lambda>v. v \<le> 3) (rrpv_bits p ! s)" by (simp add: list_all_iff)
  from SRRIP_loop_terminates [OF len le, of cset] obtain k w where
    l: "SRRIP_loop cset (rrpv_bits p ! s) = Some (w, (SRRIP_age ^^ k) (rrpv_bits p ! s))"
    and sc: "SRRIP_scan cset ((SRRIP_age ^^ k) (rrpv_bits p ! s)) = Some w"
    and nn: "\<forall>j<k. SRRIP_scan cset ((SRRIP_age ^^ j) (rrpv_bits p ! s)) = None"
    by blast
  let ?row = "(SRRIP_age ^^ k) (rrpv_bits p ! s)"
  have 1: "SRRIP_find_victim p s cset p_c sh st = Inr (int w, p\<lparr>rrpv_bits := (rrpv_bits p)[s := ?row]\<rparr>)"
    using l by (simp add: SRRIP_find_victim_def)
  have 2: "w < WAYS" "\<not> valid (cset ! w) \<or> ?row ! w = 3"
    using SRRIP_scan_Some [OF sc] by simp_all
  have 3: "length ?row = WAYS" using len by (simp add: SRRIP_ages_length)
  have 4: "list_all (\<lambda>v. 0 \<le> v \<and> v \<le> 3) ?row" using len rg by (rule SRRIP_ages_range)
  have 5: "?row = rrpv_bits p ! s" if "has_invalid cset"
  proof (cases k)
    case 0
    then show ?thesis by simp
  next
    case (Suc k')
    with nn have "SRRIP_scan cset ((SRRIP_age ^^ 0) (rrpv_bits p ! s)) = None" by blast
    with SRRIP_scan_invalid [OF that, of "rrpv_bits p ! s"] show ?thesis by simp
  qed
  from 1 2 3 4 5 show ?thesis by blast
qed

lemma SRRIP_inv_init: "SRRIP_inv (Simulator_init SRRIP_init)"
  using wf_cache_init [of SRRIP_init]
  by (simp add: SRRIP_inv_def)
     (simp add: Simulator_init_def SRRIP_init_def list_all_iff CacheLine_default_def)

lemma SRRIP_access_step:
  assumes inv: "SRRIP_inv sim"
  shows "\<exists>sim'. access SRRIP_ops sim addr p_c sh st = Inr sim' \<and> SRRIP_inv sim'"
proof -
  let ?s = "set_index addr" and ?c = "cache sim" and ?rr = "rrpv_bits (policy sim)"
  have s: "?s < NUM_SETS" by (rule set_index_less)
  from inv have wf: "wf_cache ?c" and lrr: "length ?rr = NUM_SETS"
    and len: "\<And>t. t < NUM_SETS \<Longrightarrow> length (?rr ! t) = WAYS"
    and rg: "\<And>t. t < NUM_SETS \<Longrightarrow> list_all (\<lambda>v. 0 \<le> v \<and> v \<le> 3) (?rr ! t)"
    and K: "\<And>t v. t < NUM_SETS \<Longrightarrow> has_invalid (?c ! t) \<Longrightarrow> v < WAYS \<Longrightarrow>
              valid (?c ! t ! v) \<Longrightarrow> ?rr ! t ! v < 3"
    by (simp_all add: SRRIP_inv_def)
  have lc: "length ?c = NUM_SETS" using wf by (simp add: wf_cache_def)
  have lrow: "length (?c ! ?s) = WAYS" using wf s by (rule wf_cache_row)
  show ?thesis
  proof (cases "find_hit (?c ! ?s) addr")
    case (Some w)
    from find_hit_Some [OF Some] have w: "w < WAYS" by simp
    let ?sim' = "sim\<lparr>hits := hits sim + 1,
        policy := update_on_hit SRRIP_ops (policy sim) ?s w (?c ! ?s ! w),
        coherence_traffic_saved := coherence_traffic_saved sim +
          (if state (?c ! ?s ! w) = MODIFIED \<or> sharers (?c ! ?s ! w) > 1 then 1 else 0)\<rparr>"
    have rr': "rrpv_bits (policy ?sim') = ?rr[?s := (?rr ! ?s)[w := 0]]"
      by (simp add: SRRIP_ops_def SRRIP_update_on_hit_def)
    have "SRRIP_inv ?sim'"
      unfolding SRRIP_inv_def rr'
    proof (intro conjI allI impI)
      show "wf_cache (cache ?sim')" using wf by simp
      show "length (?rr[?s := (?rr ! ?s)[w := 0]]) = NUM_SETS" using lrr by simp
    next
      fix t assume t: "t < NUM_SETS"
      show "length (?rr[?s := (?rr ! ?s)[w := 0]] ! t) = WAYS"
        using len [OF t] t s lrr by (simp add: nth_list_update)
      show "list_all (\<lambda>v. 0 \<le> v \<and> v \<le> 3) (?rr[?s := (?rr ! ?s)[w := 0]] ! t)"
        using rg [OF t] t s lrr by (simp add: nth_list_update list_all_update)
    next
      fix t v assume t: "t < NUM_SETS" and hi: "has_invalid (cache ?sim' ! t)"
        and v: "v < WAYS" and vv: "valid (cache ?sim' ! t ! v)"
      from K [OF t, of v] hi v vv have old: "?rr ! t ! v < 3" by simp
      show "?rr[?s := (?rr ! ?s)[w := 0]] ! t ! v < 3"
      proof (cases "t = ?s")
        case True
        have "(?rr ! ?s)[w := 0] ! v < 3"
          using old len [OF s] v w unfolding True by (cases "v = w") simp_all
        with True s lrr show ?thesis by simp
      next
        case False
        with old show ?thesis by simp
      qed
    qed
    with access_hit [OF Some, of SRRIP_ops p_c sh st] show ?thesis by simp
  next
    case None
    obtain w row where
      fv: "SRRIP_find_victim (policy sim) ?s (?c ! ?s) p_c sh st =
             Inr (int w, (policy sim)\<lparr>rrpv_bits := ?rr[?s := row]\<rparr>)"
      and w: "w < WAYS" and lr: "length row = WAYS"
      and rr: "list_all (\<lambda>v. 0 \<le> v \<and> v \<le> 3) row"
      and stop: "\<not> valid (?c ! ?s ! w) \<or> row ! w = 3"
      and same: "has_invalid (?c ! ?s) \<longrightarrow> row = ?rr ! ?s"
      using SRRIP_find_victim_result [OF len [OF s] rg [OF s], of "?c ! ?s" p_c sh st] by blast
    let ?l = "\<lparr>valid = True, tag = addr, pc = p_c, sharers = sh, state = st, lru_stack = 0, rrpv = 3\<rparr>"
    let ?sim' = "sim\<lparr>misses := misses sim + 1,
        cache := ?c[?s := (?c ! ?s)[nat (int w) := ?l]],
        policy := update_on_miss SRRIP_ops ((policy sim)\<lparr>rrpv_bits := ?rr[?s := row]\<rparr>) ?s (nat (int w))\<rparr>"
    have fv': "find_victim SRRIP_ops (policy sim) ?s (?c ! ?s) p_c sh st =
        Inr (int w, (policy sim)\<lparr>rrpv_bits := ?rr[?s := row]\<rparr>)"
      using fv by (simp add: SRRIP_ops_def)
    have a: "access SRRIP_ops sim addr p_c sh st = Inr ?sim'"
      using w by (intro access_miss [OF None fv']) simp_all
    have rr': "rrpv_bits (policy ?sim') = ?rr[?s := row[w := 2]]"
      using s lrr by (simp add: SRRIP_ops_def SRRIP_update_on_miss_def)
    have c': "cache ?sim' = ?c[?s := (?c ! ?s)[w := ?l]]" by simp
    have "SRRIP_inv ?sim'"
      unfolding SRRIP_inv_def rr' c'
    proof (intro conjI allI impI)
      show "wf_cache (?c[?s := (?c ! ?s)[w := ?l]])"
        using wf by (rule wf_cache_update) (simp add: lrow)
      show "length (?rr[?s := row[w := 2]]) = NUM_SETS" using lrr by simp
    next
      fix t assume t: "t < NUM_SETS"
      show "length (?rr[?s := row[w := 2]] ! t) = WAYS"
        using len [OF t] t s lrr lr by (simp add: nth_list_update)
      show "list_all (\<lambda>v. 0 \<le> v \<and> v \<le> 3) (?rr[?s := row[w := 2]] ! t)"
        using rg [OF t] t s lrr rr by (simp add: nth_list_update list_all_update)
    next
      fix t v assume t: "t < NUM_SETS" and hi: "has_invalid (?c[?s := (?c ! ?s)[w := ?l]] ! t)"
        and v: "v < WAYS" and vv: "valid (?c[?s := (?c ! ?s)[w := ?l]] ! t ! v)"
      show "?rr[?s := row[w := 2]] ! t ! v < 3"
      proof (cases "t = ?s")
        case False
        with K [OF t, of v] hi v vv t s lrr lc show ?thesis by (simp add: nth_list_update)
      next
        case True
        from hi True s lc have "has_invalid ((?c ! ?s)[w := ?l])" by simp
        then obtain u where u: "u < WAYS" "\<not> valid ((?c ! ?s)[w := ?l] ! u)"
          by (auto simp: has_invalid_iff)
        with lrow w have "u \<noteq> w" by (auto simp: nth_list_update)
        with u lrow have "\<not> valid (?c ! ?s ! u)" by (simp add: nth_list_update)
        with u(1) have old: "has_invalid (?c ! ?s)" by (auto simp: has_invalid_iff)
        with same have row: "row = ?rr ! ?s" by simp
        show ?thesis
        proof (cases "v = w")
          case True
          with \<open>t = ?s\<close> s lrr lr w show ?thesis by simp
        next
          case False
          with vv \<open>t = ?s\<close> s lc lrow v have "valid (?c ! ?s ! v)" by (simp add: nth_list_update)
          from K [OF s old v this] False \<open>t = ?s\<close> s lrr lr v row show ?thesis
            by (simp add: nth_list_update)
        qed
      qed
    qed
    with a show ?thesis by simp
  qed
qed

lemma SRRIP_run_step:
  "SRRIP_inv sim \<Longrightarrow> \<exists>sim'. run SRRIP_ops sim as = Inr sim' \<and> SRRIP_inv sim'"
proof (induction as arbitrary: sim)
  case Nil
  then show ?case by simp
next
  case (Cons a as)
  obtain addr p_c sh st where a: "a = (addr, p_c, sh, st)" by (cases a)
  from SRRIP_access_step [OF Cons.prems] obtain s1 where
    "access SRRIP_ops sim addr p_c sh st = Inr s1" "SRRIP_inv s1" by blast
  with Cons.IH [of s1] a show ?case by simp
qed

text \<open>
  Claim C9. \<open>find_victim\<close> of SRRIP returns whenever the set's re-reference values are at
  most 3, which they are in every state a sequence of accesses reaches from the initial
  simulator. It returns after \<open>k\<close> aging rounds with \<open>k \<le> 3 - min\<close>, where \<open>min\<close> is the
  least value of the set: the first \<open>k\<close> scans find nothing, the scan after the \<open>k\<close>-th
  aging finds way \<open>w\<close>, and the values stored back are the \<open>k\<close>-fold aged ones.
\<close>

theorem C9_SRRIP_aging_terminates:
  "(length (rrpv_bits p ! s) = WAYS \<and> list_all (\<lambda>v. v \<le> 3) (rrpv_bits p ! s) \<longrightarrow>
      (\<exists>k w. k \<le> nat (3 - Min (set (rrpv_bits p ! s))) \<and>
         SRRIP_find_victim p s cset p_c sh st =
           Inr (int w, p\<lparr>rrpv_bits := (rrpv_bits p)[s := (SRRIP_age ^^ k) (rrpv_bits p ! s)]\<rparr>) \<and>
         w < WAYS \<and>
         SRRIP_scan cset ((SRRIP_age ^^ k) (rrpv_bits p ! s)) = Some w \<and>
         (\<forall>j<k. SRRIP_scan cset ((SRRIP_age ^^ j) (rrpv_bits p ! s)) = None))) \<and>
   (run SRRIP_ops (Simulator_init SRRIP_init) as = Inr sim \<and> t < NUM_SETS \<longrightarrow>
      length (rrpv_bits (policy sim) ! t) = WAYS \<and>
      list_all (\<lambda>v. v \<le> 3) (rrpv_bits (policy sim) ! t))"
proof (intro conjI impI)
  assume "length (rrpv_bits p ! s) = WAYS \<and> list_all (\<lambda>v. v \<le> 3) (rrpv_bits p ! s)"
  then have len: "length (rrpv_bits p ! s) = WAYS" and le: "list_all (\<lambda>v. v \<le> 3) (rrpv_bits p ! s)"
    by simp_all
  from SRRIP_loop_terminates [OF len le, of cset] obtain k w where
    k: "k \<le> nat (3 - Min (set (rrpv_bits p ! s)))"
    and l: "SRRIP_loop cset (rrpv_bits p ! s) = Some (w, (SRRIP_age ^^ k) (rrpv_bits p ! s))"
    and sc: "SRRIP_scan cset ((SRRIP_age ^^ k) (rrpv_bits p ! s)) = Some w"
    and nn: "\<forall>j<k. SRRIP_scan cset ((SRRIP_age ^^ j) (rrpv_bits p ! s)) = None"
    by blast
  from l have "SRRIP_find_victim p s cset p_c sh st =
      Inr (int w, p\<lparr>rrpv_bits := (rrpv_bits p)[s := (SRRIP_age ^^ k) (rrpv_bits p ! s)]\<rparr>)"
    by (simp add: SRRIP_find_victim_def)
  moreover from SRRIP_scan_Some [OF sc] have "w < WAYS" by simp
  ultimately show "\<exists>k w. k \<le> nat (3 - Min (set (rrpv_bits p ! s))) \<and>
         SRRIP_find_victim p s cset p_c sh st =
           Inr (int w, p\<lparr>rrpv_bits := (rrpv_bits p)[s := (SRRIP_age ^^ k) (rrpv_bits p ! s)]\<rparr>) \<and>
         w < WAYS \<and>
         SRRIP_scan cset ((SRRIP_age ^^ k) (rrpv_bits p ! s)) = Some w \<and>
         (\<forall>j<k. SRRIP_scan cset ((SRRIP_age ^^ j) (rrpv_bits p ! s)) = None)"
    using k sc nn by blast
next
  assume a: "run SRRIP_ops (Simulator_init SRRIP_init) as = Inr sim \<and> t < NUM_SETS"
  from SRRIP_run_step [OF SRRIP_inv_init, of as] a have "SRRIP_inv sim" by auto
  with a have "length (rrpv_bits (policy sim) ! t) = WAYS"
    and "list_all (\<lambda>v. 0 \<le> v \<and> v \<le> 3) (rrpv_bits (policy sim) ! t)"
    by (simp_all add: SRRIP_inv_def)
  then show "length (rrpv_bits (policy sim) ! t) = WAYS"
    and "list_all (\<lambda>v. v \<le> 3) (rrpv_bits (policy sim) ! t)"
    by (simp_all add: list_all_iff)
qed

theorem C9_SRRIP_aging_terminates_witness:
  "length (rrpv_bits \<lparr>rrpv_bits = [[2, 0, 1, 2, 0, 0, 1, 2]]\<rparr> ! 0) = WAYS \<and>
   list_all (\<lambda>v. v \<le> 3) (rrpv_bits \<lparr>rrpv_bits = [[2, 0, 1, 2, 0, 0, 1, 2]]\<rparr> ! 0) \<and>
   nat (3 - Min (set (rrpv_bits \<lparr>rrpv_bits = [[2, 0, 1, 2, 0, 0, 1, 2]]\<rparr> ! 0))) = 3 \<and>
   SRRIP_find_victim \<lparr>rrpv_bits = [[2, 0, 1, 2, 0, 0, 1, 2]]\<rparr> 0
       (replicate 8 (CacheLine_default\<lparr>valid := True\<rparr>)) 0 0 INVALID =
     Inr (0, \<lparr>rrpv_bits = [[3, 1, 2, 3, 1, 1, 2, 3]]\<rparr>) \<and>
   (\<exists>k w. k \<le> 3 \<and>
      SRRIP_find_victim \<lparr>rrpv_bits = [[2, 0, 1, 2, 0, 0, 1, 2]]\<rparr> 0
          (replicate 8 (CacheLine_default\<lparr>valid := True\<rparr>)) 0 0 INVALID =
        Inr (int w, \<lparr>rrpv_bits = [(SRRIP_age ^^ k) [2, 0, 1, 2, 0, 0, 1, 2]]\<rparr>)) \<and>
   run SRRIP_ops (Simulator_init SRRIP_init) [] = Inr (Simulator_init SRRIP_init) \<and>
   0 < NUM_SETS \<and>
   list_all (\<lambda>v. v \<le> 3) (rrpv_bits (policy (Simulator_init SRRIP_init)) ! 0)"
proof -
  let ?p = "\<lparr>rrpv_bits = [[2, 0, 1, 2, 0, 0, 1, 2]]\<rparr>"
  let ?c = "replicate 8 (CacheLine_default\<lparr>valid := True\<rparr>)"
  have 1: "length (rrpv_bits ?p ! 0) = WAYS" by (simp add: WAYS_def)
  have 2: "list_all (\<lambda>v. v \<le> 3) (rrpv_bits ?p ! 0)" by simp
  have 3: "nat (3 - Min (set (rrpv_bits ?p ! 0))) = 3" by simp
  have s0: "SRRIP_scan ?c [2, 0, 1, 2, 0, 0, 1, 2] = None" by code_simp
  have a1: "SRRIP_age [2, 0, 1, 2, 0, 0, 1, 2] = [3, 1, 2, 3, 1, 1, 2, 3]" by code_simp
  have s1: "SRRIP_scan ?c [3, 1, 2, 3, 1, 1, 2, 3] = Some 0" by code_simp
  have "SRRIP_loop ?c [3, 1, 2, 3, 1, 1, 2, 3] = Some (0, [3, 1, 2, 3, 1, 1, 2, 3])"
    by (subst SRRIP_loop.simps) (simp add: s1)
  then have "SRRIP_loop ?c [2, 0, 1, 2, 0, 0, 1, 2] = Some (0, [3, 1, 2, 3, 1, 1, 2, 3])"
    by (subst SRRIP_loop.simps) (simp add: s0 a1)
  then have 4: "SRRIP_find_victim ?p 0 ?c 0 0 INVALID = Inr (0, \<lparr>rrpv_bits = [[3, 1, 2, 3, 1, 1, 2, 3]]\<rparr>)"
    by (simp add: SRRIP_find_victim_def)
  have 5: "run SRRIP_ops (Simulator_init SRRIP_init) [] = Inr (Simulator_init SRRIP_init)"
    by simp
  have 6: "0 < NUM_SETS" by (rule NUM_SETS_pos)
  from C9_SRRIP_aging_terminates [of ?p 0 ?c 0 0 INVALID "[]" "Simulator_init SRRIP_init" 0]
    1 2 3 4 5 6
  show ?thesis by simp blast
qed

section \<open>COALESCE: the voting loop\<close>

lemma predict_range:
  "weights_ok b \<Longrightarrow> - 128 \<le> predict b p sh st \<and> predict b p sh st \<le> 127"
  unfolding predict_def by (rule weights_ok_nth) (simp_all add: get_hash_less)

lemma COALESCE_vote_range:
  "weights_ok b \<Longrightarrow> - 128 \<le> COALESCE_vote b l \<and> COALESCE_vote b l \<le> 217"
  using predict_range [of b "pc l" "sharers l" "state l"]
  by (auto simp: COALESCE_vote_def Let_def)

lemma COALESCE_scan_Inl:
  "COALESCE_scan b cset ws (v, m) = Inl w \<Longrightarrow> w \<in> set ws \<and> \<not> valid (cset ! w)"
  by (induction ws arbitrary: v m) (auto split: if_splits)

lemma COALESCE_scan_invalid:
  "\<exists>w\<in>set ws. \<not> valid (cset ! w) \<Longrightarrow> \<exists>w. COALESCE_scan b cset ws (v, m) = Inl w"
  by (induction ws arbitrary: v m) auto

text \<open>
  Over valid lines the loop ends with the least vote below the initial \<open>min_vote\<close> and
  the first way that has it, or with the initial pair when no vote is below it.
\<close>

lemma COALESCE_scan_valid:
  assumes "\<forall>w\<in>set ws. valid (cset ! w)"
  shows "\<exists>v' m'. COALESCE_scan b cset ws (v, m) = Inr (v', m') \<and>
           (\<forall>w\<in>set ws. m' \<le> COALESCE_vote b (cset ! w)) \<and>
           (v' = v \<and> m' = m \<or>
            (\<exists>i<length ws. v' = int (ws ! i) \<and> m' = COALESCE_vote b (cset ! (ws ! i)) \<and> m' < m \<and>
               (\<forall>j<i. m' < COALESCE_vote b (cset ! (ws ! j)))))"
  using assms
proof (induction ws arbitrary: v m)
  case Nil
  then show ?case by simp
next
  case (Cons w ws)
  let ?vote = "\<lambda>u. COALESCE_vote b (cset ! u)"
  from Cons.prems have vw: "valid (cset ! w)" and rest: "\<forall>u\<in>set ws. valid (cset ! u)"
    by simp_all
  show ?case
  proof (cases "?vote w < m")
    case True
    from Cons.IH [OF rest, of "int w" "?vote w"] obtain v' m' where
      sc: "COALESCE_scan b cset ws (int w, ?vote w) = Inr (v', m')"
      and le: "\<forall>u\<in>set ws. m' \<le> ?vote u"
      and alt: "v' = int w \<and> m' = ?vote w \<or>
            (\<exists>i<length ws. v' = int (ws ! i) \<and> m' = ?vote (ws ! i) \<and> m' < ?vote w \<and>
               (\<forall>j<i. m' < ?vote (ws ! j)))"
      by blast
    from sc vw True have res: "COALESCE_scan b cset (w # ws) (v, m) = Inr (v', m')" by simp
    from alt have m'w: "m' \<le> ?vote w" by auto
    from alt have "\<exists>i<length (w # ws). v' = int ((w # ws) ! i) \<and> m' = ?vote ((w # ws) ! i) \<and>
        m' < m \<and> (\<forall>j<i. m' < ?vote ((w # ws) ! j))"
    proof (elim disjE conjE exE)
      assume "v' = int w" "m' = ?vote w"
      with True show ?thesis by (intro exI [of _ 0]) simp
    next
      fix i assume i: "i < length ws" "v' = int (ws ! i)" "m' = ?vote (ws ! i)" "m' < ?vote w"
        "\<forall>j<i. m' < ?vote (ws ! j)"
      have "\<forall>j<Suc i. m' < ?vote ((w # ws) ! j)"
      proof (intro allI impI)
        fix j assume "j < Suc i"
        with i show "m' < ?vote ((w # ws) ! j)" by (cases j) simp_all
      qed
      with i True show ?thesis by (intro exI [of _ "Suc i"]) simp
    qed
    with res le m'w show ?thesis by simp
  next
    case False
    from Cons.IH [OF rest, of v m] obtain v' m' where
      sc: "COALESCE_scan b cset ws (v, m) = Inr (v', m')"
      and le: "\<forall>u\<in>set ws. m' \<le> ?vote u"
      and alt: "v' = v \<and> m' = m \<or>
            (\<exists>i<length ws. v' = int (ws ! i) \<and> m' = ?vote (ws ! i) \<and> m' < m \<and>
               (\<forall>j<i. m' < ?vote (ws ! j)))"
      by blast
    from sc vw False have res: "COALESCE_scan b cset (w # ws) (v, m) = Inr (v', m')" by simp
    from alt have m'm: "m' \<le> m" by auto
    with False have m'w: "m' \<le> ?vote w" by simp
    from alt have "v' = v \<and> m' = m \<or>
       (\<exists>i<length (w # ws). v' = int ((w # ws) ! i) \<and> m' = ?vote ((w # ws) ! i) \<and>
        m' < m \<and> (\<forall>j<i. m' < ?vote ((w # ws) ! j)))"
    proof (elim disjE conjE exE)
      assume "v' = v" "m' = m"
      then show ?thesis by simp
    next
      fix i assume i: "i < length ws" "v' = int (ws ! i)" "m' = ?vote (ws ! i)" "m' < m"
        "\<forall>j<i. m' < ?vote (ws ! j)"
      have "\<forall>j<Suc i. m' < ?vote ((w # ws) ! j)"
      proof (intro allI impI)
        fix j assume "j < Suc i"
        with i False show "m' < ?vote ((w # ws) ! j)" by (cases j) simp_all
      qed
      with i have "\<exists>i<length (w # ws). v' = int ((w # ws) ! i) \<and> m' = ?vote ((w # ws) ! i) \<and>
        m' < m \<and> (\<forall>j<i. m' < ?vote ((w # ws) ! j))"
        by (intro exI [of _ "Suc i"]) simp
      then show ?thesis by (rule disjI2)
    qed
    with res le m'w show ?thesis by simp
  qed
qed

text \<open>The scan of a full set with weights in range: the first way of least adjusted vote.\<close>

lemma COALESCE_scan_full:
  assumes ok: "weights_ok b" and full: "\<not> has_invalid cset"
  shows "\<exists>w<WAYS. COALESCE_scan b cset [0..<WAYS] (- 1, 99999) =
             Inr (int w, COALESCE_vote b (cset ! w)) \<and>
           (\<forall>u<WAYS. COALESCE_vote b (cset ! w) \<le> COALESCE_vote b (cset ! u)) \<and>
           (\<forall>u<w. COALESCE_vote b (cset ! w) < COALESCE_vote b (cset ! u))"
proof -
  let ?vote = "\<lambda>u. COALESCE_vote b (cset ! u)"
  from full have "\<forall>w\<in>set [0..<WAYS]. valid (cset ! w)"
    by (auto simp: has_invalid_iff)
  from COALESCE_scan_valid [OF this, of b "- 1" 99999] obtain v' m' where
    sc: "COALESCE_scan b cset [0..<WAYS] (- 1, 99999) = Inr (v', m')"
    and le: "\<forall>w\<in>set [0..<WAYS]. m' \<le> ?vote w"
    and alt: "v' = - 1 \<and> m' = 99999 \<or>
       (\<exists>i<length [0..<WAYS]. v' = int ([0..<WAYS] ! i) \<and> m' = ?vote ([0..<WAYS] ! i) \<and>
          m' < 99999 \<and> (\<forall>j<i. m' < ?vote ([0..<WAYS] ! j)))"
    by blast
  from le WAYS_pos have "m' \<le> ?vote 0" by simp
  with COALESCE_vote_range [OF ok, of "cset ! 0"] have "m' \<noteq> 99999" by simp
  with alt obtain i where i: "i < WAYS" "v' = int i" "m' = ?vote i" "\<forall>j<i. m' < ?vote j"
    by auto
  with sc le show ?thesis by (intro exI [of _ i]) simp
qed

lemma COALESCE_find_victim_invalid:
  assumes "has_invalid cset"
  shows "\<exists>w<WAYS. COALESCE_find_victim p s cset p_c sh st = Inr (int w, p) \<and> \<not> valid (cset ! w)"
proof -
  from assms have "\<exists>w\<in>set [0..<WAYS]. \<not> valid (cset ! w)"
    by (auto simp: has_invalid_iff)
  from COALESCE_scan_invalid [OF this, of "brain p" "- 1" 99999] obtain w where
    sc: "COALESCE_scan (brain p) cset [0..<WAYS] (- 1, 99999) = Inl w" by blast
  from COALESCE_scan_Inl [OF sc] have "w < WAYS" "\<not> valid (cset ! w)" by simp_all
  with sc show ?thesis by (simp add: COALESCE_find_victim_def)
qed

lemma COALESCE_find_victim_full:
  assumes ok: "weights_ok (brain p)" and full: "\<not> has_invalid cset"
  shows "\<exists>w<WAYS.
     COALESCE_find_victim p s cset p_c sh st =
       Inr (int w,
         if is_sampled p ! s
         then p\<lparr>samplers := (samplers p)[s := samplers p ! s @
                   [\<lparr>s_valid = True, partial_tag = tag (cset ! w), s_pc = pc (cset ! w),
                     s_sharers = sharers (cset ! w), s_state = state (cset ! w),
                     last_prediction = COALESCE_vote (brain p) (cset ! w)\<rparr>]],
                brain := train (brain p) (pc (cset ! w)) (sharers (cset ! w)) (state (cset ! w)) False\<rparr>
         else p) \<and>
     (\<forall>u<WAYS. COALESCE_vote (brain p) (cset ! w) \<le> COALESCE_vote (brain p) (cset ! u)) \<and>
     (\<forall>u<w. COALESCE_vote (brain p) (cset ! w) < COALESCE_vote (brain p) (cset ! u))"
proof -
  from COALESCE_scan_full [OF ok full] obtain w where w: "w < WAYS"
    and sc: "COALESCE_scan (brain p) cset [0..<WAYS] (- 1, 99999) =
               Inr (int w, COALESCE_vote (brain p) (cset ! w))"
    and le: "\<forall>u<WAYS. COALESCE_vote (brain p) (cset ! w) \<le> COALESCE_vote (brain p) (cset ! u)"
    and first: "\<forall>u<w. COALESCE_vote (brain p) (cset ! w) < COALESCE_vote (brain p) (cset ! u)"
    by blast
  from sc have "COALESCE_find_victim p s cset p_c sh st =
       Inr (int w,
         if is_sampled p ! s
         then p\<lparr>samplers := (samplers p)[s := samplers p ! s @
                   [\<lparr>s_valid = True, partial_tag = tag (cset ! w), s_pc = pc (cset ! w),
                     s_sharers = sharers (cset ! w), s_state = state (cset ! w),
                     last_prediction = COALESCE_vote (brain p) (cset ! w)\<rparr>]],
                brain := train (brain p) (pc (cset ! w)) (sharers (cset ! w)) (state (cset ! w)) False\<rparr>
         else p)"
    by (simp add: COALESCE_find_victim_def Let_def)
  with w le first show ?thesis by blast
qed

text \<open>
  Claim C4. In a set whose ways are all valid and with weights in \<open>[-128, 127]\<close>,
  \<open>find_victim\<close> of COALESCE returns the first way of least adjusted vote. If way \<open>a\<close>
  is Modified, way \<open>b\<close> is not and their predictions are equal, the adjusted vote of \<open>b\<close>
  is below that of \<open>a\<close> (at most the +30 of many sharers against at least the +60 of
  Modified), so the returned way is never \<open>a\<close>.
\<close>

theorem C4_modified_not_evicted:
  assumes "weights_ok (brain p)" and "\<not> has_invalid cset"
    and "a < WAYS" and "b < WAYS"
    and "state (cset ! a) = MODIFIED" and "state (cset ! b) \<noteq> MODIFIED"
    and "predict (brain p) (pc (cset ! a)) (sharers (cset ! a)) (state (cset ! a)) =
         predict (brain p) (pc (cset ! b)) (sharers (cset ! b)) (state (cset ! b))"
  shows "\<exists>w p'. COALESCE_find_victim p s cset p_c sh st = Inr (int w, p') \<and>
           w < WAYS \<and> w \<noteq> a \<and>
           COALESCE_vote (brain p) (cset ! b) < COALESCE_vote (brain p) (cset ! a) \<and>
           (\<forall>u<WAYS. COALESCE_vote (brain p) (cset ! w) \<le> COALESCE_vote (brain p) (cset ! u)) \<and>
           (\<forall>u<w. COALESCE_vote (brain p) (cset ! w) < COALESCE_vote (brain p) (cset ! u))"
proof -
  from COALESCE_find_victim_full [OF assms(1,2), of s p_c sh st] obtain w p' where
    fv: "COALESCE_find_victim p s cset p_c sh st = Inr (int w, p')" and w: "w < WAYS"
    and le: "\<forall>u<WAYS. COALESCE_vote (brain p) (cset ! w) \<le> COALESCE_vote (brain p) (cset ! u)"
    and first: "\<forall>u<w. COALESCE_vote (brain p) (cset ! w) < COALESCE_vote (brain p) (cset ! u)"
    by blast
  have ba: "COALESCE_vote (brain p) (cset ! b) < COALESCE_vote (brain p) (cset ! a)"
    using assms(5,6,7) by (simp add: COALESCE_vote_def Let_def)
  from le assms(4) have "COALESCE_vote (brain p) (cset ! w) \<le> COALESCE_vote (brain p) (cset ! b)"
    by simp
  with ba have "w \<noteq> a" by auto
  with fv w ba le first show ?thesis by blast
qed

lemma predict_init: "predict PerceptronBrain_init p sh st = 0"
  using get_hash_less [of p sh st] by (simp add: predict_def PerceptronBrain_init_def)

lemma upt_WAYS: "[0..<WAYS] = [0, 1, 2, 3, 4, 5, 6, 7]"
  by (simp add: WAYS_def upt_rec)

lemma is_sampled_init:
  "s < NUM_SETS \<Longrightarrow> is_sampled (COALESCE_init b) ! s \<longleftrightarrow> s mod SAMPLING_RATE = 0"
  by (simp add: COALESCE_init_def)

theorem C4_modified_not_evicted_witness:
  "weights_ok (brain (COALESCE_init PerceptronBrain_init)) \<and>
   \<not> has_invalid
       [CacheLine_default\<lparr>valid := True, state := MODIFIED\<rparr>,
        CacheLine_default\<lparr>valid := True, state := EXCLUSIVE, sharers := 4\<rparr>,
        CacheLine_default\<lparr>valid := True, state := MODIFIED\<rparr>,
        CacheLine_default\<lparr>valid := True, state := MODIFIED\<rparr>,
        CacheLine_default\<lparr>valid := True, state := MODIFIED\<rparr>,
        CacheLine_default\<lparr>valid := True, state := MODIFIED\<rparr>,
        CacheLine_default\<lparr>valid := True, state := MODIFIED\<rparr>,
        CacheLine_default\<lparr>valid := True, state := MODIFIED\<rparr>] \<and>
   0 < WAYS \<and> 1 < WAYS \<and>
   COALESCE_find_victim (COALESCE_init PerceptronBrain_init) 1
       [CacheLine_default\<lparr>valid := True, state := MODIFIED\<rparr>,
        CacheLine_default\<lparr>valid := True, state := EXCLUSIVE, sharers := 4\<rparr>,
        CacheLine_default\<lparr>valid := True, state := MODIFIED\<rparr>,
        CacheLine_default\<lparr>valid := True, state := MODIFIED\<rparr>,
        CacheLine_default\<lparr>valid := True, state := MODIFIED\<rparr>,
        CacheLine_default\<lparr>valid := True, state := MODIFIED\<rparr>,
        CacheLine_default\<lparr>valid := True, state := MODIFIED\<rparr>,
        CacheLine_default\<lparr>valid := True, state := MODIFIED\<rparr>] 0 0 INVALID =
     Inr (1, COALESCE_init PerceptronBrain_init) \<and>
   (\<exists>w p'. COALESCE_find_victim (COALESCE_init PerceptronBrain_init) 1
       [CacheLine_default\<lparr>valid := True, state := MODIFIED\<rparr>,
        CacheLine_default\<lparr>valid := True, state := EXCLUSIVE, sharers := 4\<rparr>,
        CacheLine_default\<lparr>valid := True, state := MODIFIED\<rparr>,
        CacheLine_default\<lparr>valid := True, state := MODIFIED\<rparr>,
        CacheLine_default\<lparr>valid := True, state := MODIFIED\<rparr>,
        CacheLine_default\<lparr>valid := True, state := MODIFIED\<rparr>,
        CacheLine_default\<lparr>valid := True, state := MODIFIED\<rparr>,
        CacheLine_default\<lparr>valid := True, state := MODIFIED\<rparr>] 0 0 INVALID = Inr (int w, p') \<and>
      w \<noteq> 0)"
proof -
  let ?A = "CacheLine_default\<lparr>valid := True, state := MODIFIED\<rparr>"
  let ?B = "CacheLine_default\<lparr>valid := True, state := EXCLUSIVE, sharers := 4\<rparr>"
  let ?C = "[?A, ?B, ?A, ?A, ?A, ?A, ?A, ?A]"
  let ?P = "COALESCE_init PerceptronBrain_init"
  have b: "brain ?P = PerceptronBrain_init" by (simp add: COALESCE_init_def)
  have 1: "weights_ok (brain ?P)" unfolding b by (rule weights_ok_init)
  have 2: "\<not> has_invalid ?C" by (simp add: has_invalid_def upt_WAYS)
  have 3: "0 < WAYS" "1 < WAYS" by (simp_all add: WAYS_def)
  have 4: "state (?C ! 0) = MODIFIED" "state (?C ! 1) \<noteq> MODIFIED" by simp_all
  have 5: "predict (brain ?P) (pc (?C ! 0)) (sharers (?C ! 0)) (state (?C ! 0)) =
           predict (brain ?P) (pc (?C ! 1)) (sharers (?C ! 1)) (state (?C ! 1))"
    unfolding b by (simp only: predict_init)
  have vA: "COALESCE_vote PerceptronBrain_init ?A = 60"
    by (simp add: COALESCE_vote_def predict_init CacheLine_default_def)
  have vB: "COALESCE_vote PerceptronBrain_init ?B = 30"
    by (simp add: COALESCE_vote_def predict_init CacheLine_default_def)
  have ns: "\<not> is_sampled ?P ! 1"
    by (simp add: is_sampled_init NUM_SETS_def SAMPLING_RATE_def)
  have 6: "COALESCE_find_victim ?P 1 ?C 0 0 INVALID = Inr (1, ?P)"
    unfolding COALESCE_find_victim_def b upt_WAYS using ns
    by (simp add: vA vB)
  from C4_modified_not_evicted [OF 1 2 3 4 5, of 1 0 0 INVALID] 1 2 3 6
  show ?thesis by simp
qed

section \<open>COALESCE: reachable states\<close>

lemma COALESCE_inv_init: "COALESCE_inv (Simulator_init (COALESCE_init PerceptronBrain_init))"
  using wf_cache_init [of "COALESCE_init PerceptronBrain_init"] weights_ok_init
  by (simp add: COALESCE_inv_def) (simp add: Simulator_init_def COALESCE_init_def)

lemma COALESCE_inv_sampled:
  "COALESCE_inv sim \<Longrightarrow> t < NUM_SETS \<Longrightarrow> is_sampled (policy sim) ! t \<longleftrightarrow> t mod SAMPLING_RATE = 0"
  by (simp add: COALESCE_inv_def)

text \<open>
  One access on a state satisfying the invariant: it completes, keeps the invariant, and
  appends one valid record to the sampler of its set exactly when it misses in a sampled
  set without an invalid line; a miss with an invalid line fills an invalid way.
\<close>

lemma COALESCE_access_step:
  assumes inv: "COALESCE_inv sim"
  shows "\<exists>sim'. access COALESCE_ops sim addr p_c sh st = Inr sim' \<and> COALESCE_inv sim' \<and>
     (\<forall>t<NUM_SETS. \<exists>es. samplers (policy sim') ! t = samplers (policy sim) ! t @ es \<and>
        list_all s_valid es \<and>
        length es = (if t = set_index addr \<and> t mod SAMPLING_RATE = 0 \<and>
                        find_hit (cache sim ! t) addr = None \<and> \<not> has_invalid (cache sim ! t)
                     then 1 else 0)) \<and>
     (find_hit (cache sim ! set_index addr) addr = None \<longrightarrow>
        (\<exists>w<WAYS. cache sim' = (cache sim)[set_index addr := (cache sim ! set_index addr)
            [w := \<lparr>valid = True, tag = addr, pc = p_c, sharers = sh, state = st,
                   lru_stack = 0, rrpv = 3\<rparr>]] \<and>
           (has_invalid (cache sim ! set_index addr) \<longrightarrow> \<not> valid (cache sim ! set_index addr ! w))))"
proof -
  let ?s = "set_index addr" and ?c = "cache sim" and ?p = "policy sim"
  have s: "?s < NUM_SETS" by (rule set_index_less)
  from inv have wf: "wf_cache ?c" and ok: "weights_ok (brain ?p)"
    and ls: "length (samplers ?p) = NUM_SETS"
    and smp: "is_sampled ?p = map (\<lambda>i. i mod SAMPLING_RATE = 0) [0..<NUM_SETS]"
    and pre: "\<And>t. t < NUM_SETS \<Longrightarrow>
      \<exists>es. samplers ?p ! t = replicate SAMPLER_SIZE SamplerEntry_default @ es \<and> list_all s_valid es"
    by (simp_all add: COALESCE_inv_def)
  have lrow: "length (?c ! ?s) = WAYS" using wf s by (rule wf_cache_row)
  have sampled: "is_sampled ?p ! ?s \<longleftrightarrow> ?s mod SAMPLING_RATE = 0"
    using inv s by (rule COALESCE_inv_sampled)
  show ?thesis
  proof (cases "find_hit (?c ! ?s) addr")
    case (Some w)
    let ?sim' = "sim\<lparr>hits := hits sim + 1,
        policy := update_on_hit COALESCE_ops ?p ?s w (?c ! ?s ! w),
        coherence_traffic_saved := coherence_traffic_saved sim +
          (if state (?c ! ?s ! w) = MODIFIED \<or> sharers (?c ! ?s ! w) > 1 then 1 else 0)\<rparr>"
    have a: "access COALESCE_ops sim addr p_c sh st = Inr ?sim'"
      using Some by (rule access_hit)
    have same: "samplers (policy ?sim') = samplers ?p" "is_sampled (policy ?sim') = is_sampled ?p"
      "cache ?sim' = ?c"
      by (simp_all add: COALESCE_ops_def COALESCE_update_on_hit_def)
    have "weights_ok (brain (policy ?sim'))"
      using ok by (simp add: COALESCE_ops_def COALESCE_update_on_hit_def weights_ok_train)
    with wf ls smp pre same have "COALESCE_inv ?sim'"
      unfolding COALESCE_inv_def by simp
    with a Some same show ?thesis by simp
  next
    case None
    let ?l = "\<lparr>valid = True, tag = addr, pc = p_c, sharers = sh, state = st, lru_stack = 0, rrpv = 3\<rparr>"
    show ?thesis
    proof (cases "has_invalid (?c ! ?s)")
      case True
      from COALESCE_find_victim_invalid [OF True, of ?p ?s p_c sh st] obtain w where
        w: "w < WAYS" "\<not> valid (?c ! ?s ! w)"
        and fv: "COALESCE_find_victim ?p ?s (?c ! ?s) p_c sh st = Inr (int w, ?p)"
        by blast
      let ?sim' = "sim\<lparr>misses := misses sim + 1,
          cache := ?c[?s := (?c ! ?s)[nat (int w) := ?l]],
          policy := update_on_miss COALESCE_ops ?p ?s (nat (int w))\<rparr>"
      have fv': "find_victim COALESCE_ops ?p ?s (?c ! ?s) p_c sh st = Inr (int w, ?p)"
        using fv by (simp add: COALESCE_ops_def)
      have a: "access COALESCE_ops sim addr p_c sh st = Inr ?sim'"
        using w(1) by (intro access_miss [OF None fv']) simp_all
      have p': "policy ?sim' = ?p"
        by (simp add: COALESCE_ops_def COALESCE_update_on_miss_def)
      have c': "cache ?sim' = ?c[?s := (?c ! ?s)[w := ?l]]" by simp
      have "wf_cache (cache ?sim')"
        unfolding c' using wf by (rule wf_cache_update) (simp add: lrow)
      with ok ls smp pre have "COALESCE_inv ?sim'"
        unfolding COALESCE_inv_def p' by simp
      with a None True w c' p' show ?thesis by auto
    next
      case False
      from COALESCE_find_victim_full [OF ok False, of ?s p_c sh st] obtain w where
        w: "w < WAYS"
        and fv: "COALESCE_find_victim ?p ?s (?c ! ?s) p_c sh st =
          Inr (int w,
            if is_sampled ?p ! ?s
            then ?p\<lparr>samplers := (samplers ?p)[?s := samplers ?p ! ?s @
                   [\<lparr>s_valid = True, partial_tag = tag (?c ! ?s ! w), s_pc = pc (?c ! ?s ! w),
                     s_sharers = sharers (?c ! ?s ! w), s_state = state (?c ! ?s ! w),
                     last_prediction = COALESCE_vote (brain ?p) (?c ! ?s ! w)\<rparr>]],
                brain := train (brain ?p) (pc (?c ! ?s ! w)) (sharers (?c ! ?s ! w))
                           (state (?c ! ?s ! w)) False\<rparr>
            else ?p)"
        by blast
      let ?e = "\<lparr>s_valid = True, partial_tag = tag (?c ! ?s ! w), s_pc = pc (?c ! ?s ! w),
                     s_sharers = sharers (?c ! ?s ! w), s_state = state (?c ! ?s ! w),
                     last_prediction = COALESCE_vote (brain ?p) (?c ! ?s ! w)\<rparr>"
      let ?p' = "if is_sampled ?p ! ?s
            then ?p\<lparr>samplers := (samplers ?p)[?s := samplers ?p ! ?s @ [?e]],
                brain := train (brain ?p) (pc (?c ! ?s ! w)) (sharers (?c ! ?s ! w))
                           (state (?c ! ?s ! w)) False\<rparr>
            else ?p"
      let ?sim' = "sim\<lparr>misses := misses sim + 1,
          cache := ?c[?s := (?c ! ?s)[nat (int w) := ?l]],
          policy := update_on_miss COALESCE_ops ?p' ?s (nat (int w))\<rparr>"
      have fv': "find_victim COALESCE_ops ?p ?s (?c ! ?s) p_c sh st = Inr (int w, ?p')"
        using fv by (simp add: COALESCE_ops_def)
      have a: "access COALESCE_ops sim addr p_c sh st = Inr ?sim'"
        using w by (intro access_miss [OF None fv']) simp_all
      have p': "policy ?sim' = ?p'"
        by (simp add: COALESCE_ops_def COALESCE_update_on_miss_def)
      have c': "cache ?sim' = ?c[?s := (?c ! ?s)[w := ?l]]" by simp
      have wf': "wf_cache (cache ?sim')"
        unfolding c' using wf by (rule wf_cache_update) (simp add: lrow)
      have ok': "weights_ok (brain ?p')" using ok by (simp add: weights_ok_train)
      have ls': "length (samplers ?p') = NUM_SETS" using ls by simp
      have smp': "is_sampled ?p' = is_sampled ?p" by simp
      have app: "\<exists>es. samplers ?p' ! t = samplers ?p ! t @ es \<and> list_all s_valid es \<and>
          length es = (if t = ?s \<and> t mod SAMPLING_RATE = 0 then 1 else 0)"
        if t: "t < NUM_SETS" for t
      proof (cases "t = ?s \<and> t mod SAMPLING_RATE = 0")
        case True
        then have ts: "t = ?s" and m: "?s mod SAMPLING_RATE = 0" by blast+
        with sampled have "is_sampled ?p ! ?s" by simp
        with s ls have "samplers ?p' ! ?s = samplers ?p ! ?s @ [?e]" by simp
        then show ?thesis
          unfolding ts using m by (intro exI [where x = "[?e]"]) simp
      next
        case False
        with sampled s ls t have "samplers ?p' ! t = samplers ?p ! t"
          by (auto simp: nth_list_update)
        with False show ?thesis by auto
      qed
      have pre': "\<exists>es. samplers ?p' ! t = replicate SAMPLER_SIZE SamplerEntry_default @ es \<and>
          list_all s_valid es" if t: "t < NUM_SETS" for t
      proof -
        from pre [OF t] obtain es where
          "samplers ?p ! t = replicate SAMPLER_SIZE SamplerEntry_default @ es" "list_all s_valid es"
          by blast
        moreover from app [OF t] obtain es' where
          "samplers ?p' ! t = samplers ?p ! t @ es'" "list_all s_valid es'" by blast
        ultimately have "samplers ?p' ! t = replicate SAMPLER_SIZE SamplerEntry_default @ (es @ es') \<and>
            list_all s_valid (es @ es')"
          by simp
        then show ?thesis by blast
      qed
      have inv': "COALESCE_inv ?sim'"
        unfolding COALESCE_inv_def p'
      proof (intro conjI allI impI)
        show "wf_cache (cache ?sim')" by (rule wf')
        show "weights_ok (brain ?p')" by (rule ok')
        show "length (samplers ?p') = NUM_SETS" by (rule ls')
        show "is_sampled ?p' = map (\<lambda>i. i mod SAMPLING_RATE = 0) [0..<NUM_SETS]"
          unfolding smp' by (rule smp)
      next
        fix t assume "t < NUM_SETS"
        then show "\<exists>es. samplers ?p' ! t = replicate SAMPLER_SIZE SamplerEntry_default @ es \<and>
          list_all s_valid es" by (rule pre')
      qed
      have grow: "\<forall>t<NUM_SETS. \<exists>es. samplers (policy ?sim') ! t = samplers ?p ! t @ es \<and>
        list_all s_valid es \<and>
        length es = (if t = ?s \<and> t mod SAMPLING_RATE = 0 \<and>
                        find_hit (?c ! t) addr = None \<and> \<not> has_invalid (?c ! t)
                     then 1 else 0)"
        unfolding p'
      proof (intro allI impI)
        fix t assume t: "t < NUM_SETS"
        have "(t = ?s \<and> t mod SAMPLING_RATE = 0 \<and>
                find_hit (?c ! t) addr = None \<and> \<not> has_invalid (?c ! t)) =
              (t = ?s \<and> t mod SAMPLING_RATE = 0)"
          using None False by blast
        with app [OF t] show "\<exists>es. samplers ?p' ! t = samplers ?p ! t @ es \<and>
          list_all s_valid es \<and>
          length es = (if t = ?s \<and> t mod SAMPLING_RATE = 0 \<and>
                        find_hit (?c ! t) addr = None \<and> \<not> has_invalid (?c ! t)
                     then 1 else 0)"
          by (simp only:)
      qed
      have inst: "\<exists>w<WAYS. cache ?sim' = ?c[?s := (?c ! ?s)[w := ?l]] \<and>
           (has_invalid (?c ! ?s) \<longrightarrow> \<not> valid (?c ! ?s ! w))"
        using w False c' by blast
      from a inv' grow inst show ?thesis by blast
    qed
  qed
qed

lemma COALESCE_run_step:
  "COALESCE_inv sim \<Longrightarrow> \<exists>sim'. run COALESCE_ops sim as = Inr sim' \<and> COALESCE_inv sim'"
proof (induction as arbitrary: sim)
  case Nil
  then show ?case by simp
next
  case (Cons a as)
  obtain addr p_c sh st where a: "a = (addr, p_c, sh, st)" by (cases a)
  from COALESCE_access_step [OF Cons.prems, of addr p_c sh st] obtain s1 where
    "access COALESCE_ops sim addr p_c sh st = Inr s1" "COALESCE_inv s1" by blast
  with Cons.IH [of s1] a show ?case by simp
qed

section \<open>COALESCE: the sampler vectors\<close>

lemma filter_valid_update:
  "i < length row \<Longrightarrow> \<not> valid (row ! i) \<Longrightarrow> valid l \<Longrightarrow>
   length (filter valid (row[i := l])) = Suc (length (filter valid row))"
proof (induction row arbitrary: i)
  case Nil
  then show ?case by simp
next
  case (Cons x row)
  then show ?case by (cases i) simp_all
qed

lemma has_invalid_filter:
  assumes "length row = WAYS"
  shows "has_invalid row \<longleftrightarrow> length (filter valid row) < WAYS"
proof -
  have "has_invalid row \<longleftrightarrow> (\<exists>l\<in>set row. \<not> valid l)"
    unfolding has_invalid_iff assms [symmetric] by (metis in_set_conv_nth)
  also have "\<dots> \<longleftrightarrow> length (filter valid row) < length row"
    by (metis filter_id_conv length_filter_le length_filter_less nat_less_le)
  finally show ?thesis using assms by simp
qed

lemma find_hit_None_iff:
  "length row = WAYS \<Longrightarrow> find_hit row a = None \<longleftrightarrow> (\<forall>l\<in>set row. valid l \<longrightarrow> tag l \<noteq> a)"
proof -
  assume len: "length row = WAYS"
  show ?thesis
    unfolding find_hit_def find_None_iff len [symmetric]
    by (simp add: Ball_def in_set_conv_nth) blast
qed

text \<open>
  A run of accesses to pairwise distinct addresses of one sampled set, none of them
  cached: every access misses; the first ones fill the invalid ways, and each later one
  pushes a record on the sampler of the set.
\<close>

lemma COALESCE_fresh_run:
  assumes "COALESCE_inv sim" and "s < NUM_SETS" and "s mod SAMPLING_RATE = 0"
    and "distinct as" and "\<forall>a\<in>set as. set_index a = s"
    and "\<forall>a\<in>set as. \<forall>l\<in>set (cache sim ! s). valid l \<longrightarrow> tag l \<noteq> a"
  shows "\<exists>sim' es. run COALESCE_ops sim (map (\<lambda>a. (a, p_c, sh, st)) as) = Inr sim' \<and>
           samplers (policy sim') ! s = samplers (policy sim) ! s @ es \<and> list_all s_valid es \<and>
           length es = length as - (WAYS - length (filter valid (cache sim ! s)))"
  using assms
proof (induction as arbitrary: sim)
  case Nil
  then show ?case by simp
next
  case (Cons a as)
  let ?row = "cache sim ! s"
  let ?l = "\<lparr>valid = True, tag = a, pc = p_c, sharers = sh, state = st, lru_stack = 0, rrpv = 3\<rparr>"
  from Cons.prems have inv: "COALESCE_inv sim" and s: "s < NUM_SETS"
    and m: "s mod SAMPLING_RATE = 0" and d: "distinct as" "a \<notin> set as"
    and sa: "set_index a = s" and sas: "\<forall>a\<in>set as. set_index a = s"
    and fa: "\<forall>l\<in>set ?row. valid l \<longrightarrow> tag l \<noteq> a"
    and fas: "\<forall>a\<in>set as. \<forall>l\<in>set ?row. valid l \<longrightarrow> tag l \<noteq> a"
    by simp_all
  from inv have wf: "wf_cache (cache sim)" by (simp add: COALESCE_inv_def)
  then have lc: "length (cache sim) = NUM_SETS" by (simp add: wf_cache_def)
  have lrow: "length ?row = WAYS" using wf s by (rule wf_cache_row)
  from fa have miss: "find_hit ?row a = None" by (simp add: find_hit_None_iff [OF lrow])
  from COALESCE_access_step [OF inv, of a p_c sh st] s miss obtain s1 es1 w where
    a1: "access COALESCE_ops sim a p_c sh st = Inr s1" and inv1: "COALESCE_inv s1"
    and e1: "samplers (policy s1) ! s = samplers (policy sim) ! s @ es1" "list_all s_valid es1"
      "length es1 = (if \<not> has_invalid ?row then 1 else 0)"
    and w: "w < WAYS" and c1: "cache s1 = (cache sim)[s := ?row[w := ?l]]"
    and free: "has_invalid ?row \<longrightarrow> \<not> valid (?row ! w)"
    unfolding sa using m by (auto simp: sa)
  have row1: "cache s1 ! s = ?row[w := ?l]" using c1 s lc by simp
  have fresh1: "\<forall>a'\<in>set as. \<forall>l\<in>set (cache s1 ! s). valid l \<longrightarrow> tag l \<noteq> a'"
  proof (intro ballI impI)
    fix a' l assume a': "a' \<in> set as" and l: "l \<in> set (cache s1 ! s)" and v: "valid l"
    from l row1 set_update_subset_insert [of ?row w ?l] have "l = ?l \<or> l \<in> set ?row" by auto
    then show "tag l \<noteq> a'"
    proof
      assume "l = ?l"
      with a' d(2) show ?thesis by auto
    next
      assume "l \<in> set ?row"
      with fas a' v show ?thesis by blast
    qed
  qed
  from Cons.IH [OF inv1 s m d(1) sas fresh1] obtain sim' es2 where
    r: "run COALESCE_ops s1 (map (\<lambda>a. (a, p_c, sh, st)) as) = Inr sim'"
    and e2: "samplers (policy sim') ! s = samplers (policy s1) ! s @ es2" "list_all s_valid es2"
      "length es2 = length as - (WAYS - length (filter valid (cache s1 ! s)))"
    by blast
  have n1: "length (filter valid (cache s1 ! s)) =
      (if has_invalid ?row then Suc (length (filter valid ?row)) else WAYS)"
  proof (cases "has_invalid ?row")
    case True
    with free w lrow show ?thesis unfolding row1 by (simp add: filter_valid_update)
  next
    case False
    then have "\<forall>u<WAYS. valid (?row[w := ?l] ! u)"
      using lrow w by (auto simp: has_invalid_iff nth_list_update)
    then have "\<not> has_invalid (?row[w := ?l])" by (simp add: has_invalid_iff)
    with has_invalid_filter [of "?row[w := ?l]"] lrow length_filter_le [of valid "?row[w := ?l]"]
    have "length (filter valid (?row[w := ?l])) = WAYS" by simp
    with False show ?thesis unfolding row1 by simp
  qed
  have "length (es1 @ es2) = length (a # as) - (WAYS - length (filter valid ?row))"
    using e1(3) e2(3) n1 has_invalid_filter [OF lrow] by (auto split: if_splits)
  moreover have "run COALESCE_ops sim (map (\<lambda>a. (a, p_c, sh, st)) (a # as)) = Inr sim'"
    using a1 r by simp
  moreover have "samplers (policy sim') ! s = samplers (policy sim) ! s @ (es1 @ es2)"
    using e1(1) e2(1) by simp
  moreover have "list_all s_valid (es1 @ es2)" using e1(2) e2(2) by simp
  ultimately show ?case by blast
qed

lemma COALESCE_reachable_inv:
  "run COALESCE_ops (Simulator_init (COALESCE_init PerceptronBrain_init)) as = Inr sim \<Longrightarrow>
   COALESCE_inv sim"
  using COALESCE_run_step [OF COALESCE_inv_init, of as] by auto

text \<open>
  Claim C2 (as amended). The sampler vector of a set is never trimmed. In every state
  reached from the initial COALESCE simulator it begins with the \<open>SAMPLER_SIZE\<close> default
  entries of the constructor; an access leaves it as it is, except that a miss in a sampled
  set whose ways are all valid appends one valid record to the vector of that set.
\<close>

theorem C2_sampler_only_grows:
  assumes "run COALESCE_ops (Simulator_init (COALESCE_init PerceptronBrain_init)) as = Inr sim"
    and "t < NUM_SETS"
  shows "\<exists>sim' es. access COALESCE_ops sim addr p_c sh st = Inr sim' \<and>
           samplers (policy sim') ! t = samplers (policy sim) ! t @ es \<and>
           list_all s_valid es \<and>
           length es = (if t = set_index addr \<and> t mod SAMPLING_RATE = 0 \<and>
                           find_hit (cache sim ! t) addr = None \<and> \<not> has_invalid (cache sim ! t)
                        then 1 else 0) \<and>
           take SAMPLER_SIZE (samplers (policy sim) ! t) = replicate SAMPLER_SIZE SamplerEntry_default"
proof -
  have inv: "COALESCE_inv sim" using assms(1) by (rule COALESCE_reachable_inv)
  with assms(2) obtain es0 where
    "samplers (policy sim) ! t = replicate SAMPLER_SIZE SamplerEntry_default @ es0"
    by (auto simp: COALESCE_inv_def)
  then have pre: "take SAMPLER_SIZE (samplers (policy sim) ! t) =
      replicate SAMPLER_SIZE SamplerEntry_default"
    by simp
  from COALESCE_access_step [OF inv, of addr p_c sh st] assms(2) obtain sim' es where
    "access COALESCE_ops sim addr p_c sh st = Inr sim'"
    "samplers (policy sim') ! t = samplers (policy sim) ! t @ es" "list_all s_valid es"
    "length es = (if t = set_index addr \<and> t mod SAMPLING_RATE = 0 \<and>
                           find_hit (cache sim ! t) addr = None \<and> \<not> has_invalid (cache sim ! t)
                        then 1 else 0)"
    by blast
  with pre show ?thesis by blast
qed

lemma samplers_init:
  "t < NUM_SETS \<Longrightarrow>
   samplers (policy (Simulator_init (COALESCE_init b))) ! t = replicate SAMPLER_SIZE SamplerEntry_default"
  by (simp add: Simulator_init_def COALESCE_init_def)

lemma has_invalid_init: "has_invalid (replicate WAYS CacheLine_default)"
  using WAYS_pos by (auto simp: has_invalid_iff CacheLine_default_def)

theorem C2_sampler_only_grows_witness:
  "run COALESCE_ops (Simulator_init (COALESCE_init PerceptronBrain_init)) [] =
     Inr (Simulator_init (COALESCE_init PerceptronBrain_init)) \<and>
   0 < NUM_SETS \<and>
   (\<exists>sim'. access COALESCE_ops (Simulator_init (COALESCE_init PerceptronBrain_init))
              0 0xBAD 0 EXCLUSIVE = Inr sim' \<and>
      samplers (policy sim') ! 0 = replicate SAMPLER_SIZE SamplerEntry_default)"
proof -
  let ?sim = "Simulator_init (COALESCE_init PerceptronBrain_init)"
  have r: "run COALESCE_ops ?sim [] = Inr ?sim" by simp
  have s: "0 < NUM_SETS" by (rule NUM_SETS_pos)
  have "has_invalid (cache ?sim ! 0)"
    by (simp add: cache_init_row [OF s] has_invalid_init)
  with C2_sampler_only_grows [OF r s, of 0 "0xBAD" 0 EXCLUSIVE] r s show ?thesis
    by (auto simp: samplers_init)
qed

theorem C2_sampler_unbounded_counterexample:
  "(case run COALESCE_ops (Simulator_init (COALESCE_init PerceptronBrain_init))
           (map (\<lambda>a. (a, 0xBAD, 0, EXCLUSIVE))
              [0, 4096, 8192, 12288, 16384, 20480, 24576, 28672, 32768, 36864, 40960,
               45056, 49152, 53248, 57344, 61440, 65536]) of
      Inl f \<Rightarrow> False
    | Inr sim \<Rightarrow>
        is_sampled (policy sim) ! 0 \<and>
        length (samplers (policy sim) ! 0) = 17 \<and>
        length (filter s_valid (samplers (policy sim) ! 0)) = 9 \<and>
        SAMPLER_SIZE = 8)"
proof -
  let ?sim = "Simulator_init (COALESCE_init PerceptronBrain_init)"
  let ?as = "[0, 4096, 8192, 12288, 16384, 20480, 24576, 28672, 32768, 36864, 40960,
               45056, 49152, 53248, 57344, 61440, 65536] :: u64 list"
  have s: "0 < NUM_SETS" by (rule NUM_SETS_pos)
  have m: "0 mod SAMPLING_RATE = 0" by simp
  have d: "distinct ?as" by simp
  have i: "\<forall>a\<in>set ?as. set_index a = 0" by (simp add: set_index_def NUM_SETS_def)
  have f: "\<forall>a\<in>set ?as. \<forall>l\<in>set (cache ?sim ! 0). valid l \<longrightarrow> tag l \<noteq> a"
    unfolding cache_init_row [OF s] by (simp add: CacheLine_default_def)
  have n: "length (filter valid (cache ?sim ! 0)) = 0"
    unfolding cache_init_row [OF s] by (simp add: CacheLine_default_def)
  from COALESCE_fresh_run [OF COALESCE_inv_init s m d i f, of "0xBAD" 0 EXCLUSIVE]
  obtain sim' es where
    r: "run COALESCE_ops ?sim (map (\<lambda>a. (a, 0xBAD, 0, EXCLUSIVE)) ?as) = Inr sim'"
    and e: "samplers (policy sim') ! 0 = samplers (policy ?sim) ! 0 @ es" "list_all s_valid es"
      "length es = length ?as - (WAYS - length (filter valid (cache ?sim ! 0)))"
    by blast
  from e(3) have le: "length es = 9" unfolding n by (simp add: WAYS_def)
  from e(2) have fe: "filter s_valid es = es" by (simp add: list_all_iff)
  have sm: "samplers (policy sim') ! 0 = replicate SAMPLER_SIZE SamplerEntry_default @ es"
    using e(1) by (simp add: samplers_init [OF s])
  have "is_sampled (policy sim') ! 0"
    using COALESCE_inv_sampled [OF COALESCE_reachable_inv [OF r] s] by simp
  moreover have "length (samplers (policy sim') ! 0) = 17"
    unfolding sm using le by (simp add: SAMPLER_SIZE_def)
  moreover have "length (filter s_valid (samplers (policy sim') ! 0)) = 9"
    unfolding sm using le fe by (simp add: SamplerEntry_default_def)
  ultimately show ?thesis unfolding r by (simp add: SAMPLER_SIZE_def)
qed

section \<open>The first access of a run\<close>

lemma first_access:
  assumes "access ops (Simulator_init p) addr p_c sh st = Inr sim1"
  shows "\<exists>v<WAYS. cache sim1 ! set_index addr =
           (replicate WAYS CacheLine_default)
             [v := \<lparr>valid = True, tag = addr, pc = p_c, sharers = sh, state = st,
                     lru_stack = 0, rrpv = 3\<rparr>]"
proof -
  let ?s = "set_index addr"
  have s: "?s < NUM_SETS" by (rule set_index_less)
  have row: "cache (Simulator_init p) ! ?s = replicate WAYS CacheLine_default"
    using s by (rule cache_init_row)
  have lc: "length (cache (Simulator_init p)) = NUM_SETS" by (simp add: Simulator_init_def)
  from assms show ?thesis
  proof (cases rule: access_Inr_cases)
    case (hit w)
    then show ?thesis by (simp add: row find_hit_init)
  next
    case (miss v p')
    from access_miss [OF miss] assms s lc have "cache sim1 ! ?s =
      (replicate WAYS CacheLine_default)
        [nat v := \<lparr>valid = True, tag = addr, pc = p_c, sharers = sh, state = st,
                    lru_stack = 0, rrpv = 3\<rparr>]"
      by (auto simp: row)
    moreover from miss(3,4) have "nat v < WAYS" by simp
    ultimately show ?thesis by blast
  qed
qed

lemma first_access_partly_filled:
  assumes "access ops (Simulator_init p) addr p_c sh st = Inr sim1"
  shows "has_invalid (cache sim1 ! set_index addr) \<and>
         (\<exists>v<WAYS. valid (cache sim1 ! set_index addr ! v) \<and> tag (cache sim1 ! set_index addr ! v) = addr)"
proof -
  from first_access [OF assms] obtain v where v: "v < WAYS"
    and row: "cache sim1 ! set_index addr =
           (replicate WAYS CacheLine_default)
             [v := \<lparr>valid = True, tag = addr, pc = p_c, sharers = sh, state = st,
                     lru_stack = 0, rrpv = 3\<rparr>]"
    by blast
  let ?u = "if v = 0 then 1 else 0 :: nat"
  have "?u < WAYS" "?u \<noteq> v" by (simp_all add: WAYS_def)
  then have "\<not> valid (cache sim1 ! set_index addr ! ?u)"
    unfolding row by (simp add: CacheLine_default_def)
  with \<open>?u < WAYS\<close> have "has_invalid (cache sim1 ! set_index addr)"
    unfolding has_invalid_iff by blast
  moreover from v have "valid (cache sim1 ! set_index addr ! v) \<and>
      tag (cache sim1 ! set_index addr ! v) = addr"
    unfolding row by simp
  ultimately show ?thesis using v by blast
qed

section \<open>Empty-slot priority\<close>

lemma SRRIP_find_victim_invalid:
  assumes inv: "SRRIP_inv sim" and s: "s < NUM_SETS" and hi: "has_invalid (cache sim ! s)"
  shows "\<exists>w<WAYS. SRRIP_find_victim (policy sim) s (cache sim ! s) p_c sh st =
           Inr (int w, policy sim) \<and> \<not> valid (cache sim ! s ! w)"
proof -
  from inv s have len: "length (rrpv_bits (policy sim) ! s) = WAYS"
    and rg: "list_all (\<lambda>v. 0 \<le> v \<and> v \<le> 3) (rrpv_bits (policy sim) ! s)"
    and K: "\<And>v. v < WAYS \<Longrightarrow> valid (cache sim ! s ! v) \<Longrightarrow> rrpv_bits (policy sim) ! s ! v < 3"
    using hi by (simp_all add: SRRIP_inv_def)
  from SRRIP_find_victim_result [OF len rg, of "cache sim ! s" p_c sh st] hi obtain w where
    fv: "SRRIP_find_victim (policy sim) s (cache sim ! s) p_c sh st =
           Inr (int w, (policy sim)\<lparr>rrpv_bits := (rrpv_bits (policy sim))[s := rrpv_bits (policy sim) ! s]\<rparr>)"
    and w: "w < WAYS"
    and stop: "\<not> valid (cache sim ! s ! w) \<or> rrpv_bits (policy sim) ! s ! w = 3"
    by auto
  from stop K [OF w] have "\<not> valid (cache sim ! s ! w)" by auto
  with fv w show ?thesis by auto
qed

text \<open>
  Claim C3. In every state reached from the initial simulator of LRU, of SRRIP and of
  COALESCE, if the set passed to \<open>find_victim\<close> has a way holding an invalid line, then
  \<open>find_victim\<close> returns such a way (and leaves the policy as it is).
\<close>

theorem C3_empty_slot_priority:
  "(run LRU_ops (Simulator_init LRU_init) as1 = Inr sim1 \<and> s < NUM_SETS \<and>
      has_invalid (cache sim1 ! s) \<longrightarrow>
      (\<exists>w<WAYS. find_victim LRU_ops (policy sim1) s (cache sim1 ! s) p_c sh st =
         Inr (int w, policy sim1) \<and> \<not> valid (cache sim1 ! s ! w))) \<and>
   (run SRRIP_ops (Simulator_init SRRIP_init) as2 = Inr sim2 \<and> s < NUM_SETS \<and>
      has_invalid (cache sim2 ! s) \<longrightarrow>
      (\<exists>w<WAYS. find_victim SRRIP_ops (policy sim2) s (cache sim2 ! s) p_c sh st =
         Inr (int w, policy sim2) \<and> \<not> valid (cache sim2 ! s ! w))) \<and>
   (run COALESCE_ops (Simulator_init (COALESCE_init PerceptronBrain_init)) as3 = Inr sim3 \<and>
      s < NUM_SETS \<and> has_invalid (cache sim3 ! s) \<longrightarrow>
      (\<exists>w<WAYS. find_victim COALESCE_ops (policy sim3) s (cache sim3 ! s) p_c sh st =
         Inr (int w, policy sim3) \<and> \<not> valid (cache sim3 ! s ! w)))"
proof (intro conjI impI)
  assume a: "run LRU_ops (Simulator_init LRU_init) as1 = Inr sim1 \<and> s < NUM_SETS \<and>
      has_invalid (cache sim1 ! s)"
  then have "LRU_inv sim1" using LRU_run_inv [OF LRU_inv_init] by blast
  with a have "invalid_behind (cache sim1 ! s) (lru_stacks (policy sim1) ! s)"
    and "is_perm (lru_stacks (policy sim1) ! s)"
    by (simp_all add: LRU_inv_def)
  from LRU_find_victim_invalid [OF this, of p_c sh st] a
  show "\<exists>w<WAYS. find_victim LRU_ops (policy sim1) s (cache sim1 ! s) p_c sh st =
         Inr (int w, policy sim1) \<and> \<not> valid (cache sim1 ! s ! w)"
    by (simp add: LRU_ops_def)
next
  assume a: "run SRRIP_ops (Simulator_init SRRIP_init) as2 = Inr sim2 \<and> s < NUM_SETS \<and>
      has_invalid (cache sim2 ! s)"
  with SRRIP_run_step [OF SRRIP_inv_init, of as2] have "SRRIP_inv sim2" by auto
  from SRRIP_find_victim_invalid [OF this, of s p_c sh st] a
  show "\<exists>w<WAYS. find_victim SRRIP_ops (policy sim2) s (cache sim2 ! s) p_c sh st =
         Inr (int w, policy sim2) \<and> \<not> valid (cache sim2 ! s ! w)"
    by (simp add: SRRIP_ops_def)
next
  assume a: "run COALESCE_ops (Simulator_init (COALESCE_init PerceptronBrain_init)) as3 = Inr sim3 \<and>
      s < NUM_SETS \<and> has_invalid (cache sim3 ! s)"
  from COALESCE_find_victim_invalid [of "cache sim3 ! s" "policy sim3" s p_c sh st] a
  show "\<exists>w<WAYS. find_victim COALESCE_ops (policy sim3) s (cache sim3 ! s) p_c sh st =
         Inr (int w, policy sim3) \<and> \<not> valid (cache sim3 ! s ! w)"
    by (simp add: COALESCE_ops_def)
qed

theorem C3_empty_slot_priority_witness:
  "(\<exists>sim1. run LRU_ops (Simulator_init LRU_init) [(0, 0xBAD, 0, EXCLUSIVE)] = Inr sim1 \<and>
      set_index 0 < NUM_SETS \<and> has_invalid (cache sim1 ! set_index 0) \<and>
      (\<exists>v<WAYS. valid (cache sim1 ! set_index 0 ! v)) \<and>
      (\<exists>w<WAYS. find_victim LRU_ops (policy sim1) (set_index 0) (cache sim1 ! set_index 0)
                   0xBAD 0 EXCLUSIVE = Inr (int w, policy sim1) \<and>
         \<not> valid (cache sim1 ! set_index 0 ! w))) \<and>
   (\<exists>sim2. run SRRIP_ops (Simulator_init SRRIP_init) [(0, 0xBAD, 0, EXCLUSIVE)] = Inr sim2 \<and>
      has_invalid (cache sim2 ! set_index 0) \<and>
      (\<exists>v<WAYS. valid (cache sim2 ! set_index 0 ! v)) \<and>
      (\<exists>w<WAYS. find_victim SRRIP_ops (policy sim2) (set_index 0) (cache sim2 ! set_index 0)
                   0xBAD 0 EXCLUSIVE = Inr (int w, policy sim2) \<and>
         \<not> valid (cache sim2 ! set_index 0 ! w))) \<and>
   (\<exists>sim3. run COALESCE_ops (Simulator_init (COALESCE_init PerceptronBrain_init))
              [(0, 0xBAD, 0, EXCLUSIVE)] = Inr sim3 \<and>
      has_invalid (cache sim3 ! set_index 0) \<and>
      (\<exists>v<WAYS. valid (cache sim3 ! set_index 0 ! v)) \<and>
      (\<exists>w<WAYS. find_victim COALESCE_ops (policy sim3) (set_index 0) (cache sim3 ! set_index 0)
                   0xBAD 0 EXCLUSIVE = Inr (int w, policy sim3) \<and>
         \<not> valid (cache sim3 ! set_index 0 ! w)))"
proof -
  have s: "set_index 0 < NUM_SETS" by (rule set_index_less)
  obtain sim1 where a1: "access LRU_ops (Simulator_init LRU_init) 0 0xBAD 0 EXCLUSIVE = Inr sim1"
    using LRU_access_total by blast
  obtain sim2 where a2: "access SRRIP_ops (Simulator_init SRRIP_init) 0 0xBAD 0 EXCLUSIVE = Inr sim2"
    using SRRIP_access_step [OF SRRIP_inv_init] by blast
  obtain sim3 where a3: "access COALESCE_ops (Simulator_init (COALESCE_init PerceptronBrain_init))
      0 0xBAD 0 EXCLUSIVE = Inr sim3"
    using COALESCE_access_step [OF COALESCE_inv_init] by blast
  have r1: "run LRU_ops (Simulator_init LRU_init) [(0, 0xBAD, 0, EXCLUSIVE)] = Inr sim1"
    using a1 by simp
  have r2: "run SRRIP_ops (Simulator_init SRRIP_init) [(0, 0xBAD, 0, EXCLUSIVE)] = Inr sim2"
    using a2 by simp
  have r3: "run COALESCE_ops (Simulator_init (COALESCE_init PerceptronBrain_init))
      [(0, 0xBAD, 0, EXCLUSIVE)] = Inr sim3"
    using a3 by simp
  note f1 = first_access_partly_filled [OF a1]
  note f2 = first_access_partly_filled [OF a2]
  note f3 = first_access_partly_filled [OF a3]
  note th = C3_empty_slot_priority [of "[(0, 0xBAD, 0, EXCLUSIVE)]" sim1 "set_index 0"
      "0xBAD" 0 EXCLUSIVE "[(0, 0xBAD, 0, EXCLUSIVE)]" sim2 "[(0, 0xBAD, 0, EXCLUSIVE)]" sim3]
  from th r1 s f1 have c1: "\<exists>w<WAYS. find_victim LRU_ops (policy sim1) (set_index 0)
      (cache sim1 ! set_index 0) 0xBAD 0 EXCLUSIVE = Inr (int w, policy sim1) \<and>
         \<not> valid (cache sim1 ! set_index 0 ! w)"
    by blast
  from th r2 s f2 have c2: "\<exists>w<WAYS. find_victim SRRIP_ops (policy sim2) (set_index 0)
      (cache sim2 ! set_index 0) 0xBAD 0 EXCLUSIVE = Inr (int w, policy sim2) \<and>
         \<not> valid (cache sim2 ! set_index 0 ! w)"
    by blast
  from th r3 s f3 have c3: "\<exists>w<WAYS. find_victim COALESCE_ops (policy sim3) (set_index 0)
      (cache sim3 ! set_index 0) 0xBAD 0 EXCLUSIVE = Inr (int w, policy sim3) \<and>
         \<not> valid (cache sim3 ! set_index 0 ! w)"
    by blast
  from r1 s f1 c1 have "\<exists>sim1. run LRU_ops (Simulator_init LRU_init) [(0, 0xBAD, 0, EXCLUSIVE)] = Inr sim1 \<and>
      set_index 0 < NUM_SETS \<and> has_invalid (cache sim1 ! set_index 0) \<and>
      (\<exists>v<WAYS. valid (cache sim1 ! set_index 0 ! v)) \<and>
      (\<exists>w<WAYS. find_victim LRU_ops (policy sim1) (set_index 0) (cache sim1 ! set_index 0)
                   0xBAD 0 EXCLUSIVE = Inr (int w, policy sim1) \<and>
         \<not> valid (cache sim1 ! set_index 0 ! w))"
    by blast
  moreover from r2 f2 c2 have "\<exists>sim2. run SRRIP_ops (Simulator_init SRRIP_init) [(0, 0xBAD, 0, EXCLUSIVE)] = Inr sim2 \<and>
      has_invalid (cache sim2 ! set_index 0) \<and>
      (\<exists>v<WAYS. valid (cache sim2 ! set_index 0 ! v)) \<and>
      (\<exists>w<WAYS. find_victim SRRIP_ops (policy sim2) (set_index 0) (cache sim2 ! set_index 0)
                   0xBAD 0 EXCLUSIVE = Inr (int w, policy sim2) \<and>
         \<not> valid (cache sim2 ! set_index 0 ! w))"
    by blast
  moreover from r3 f3 c3 have "\<exists>sim3. run COALESCE_ops (Simulator_init (COALESCE_init PerceptronBrain_init))
              [(0, 0xBAD, 0, EXCLUSIVE)] = Inr sim3 \<and>
      has_invalid (cache sim3 ! set_index 0) \<and>
      (\<exists>v<WAYS. valid (cache sim3 ! set_index 0 ! v)) \<and>
      (\<exists>w<WAYS. find_victim COALESCE_ops (policy sim3) (set_index 0) (cache sim3 ! set_index 0)
                   0xBAD 0 EXCLUSIVE = Inr (int w, policy sim3) \<and>
         \<not> valid (cache sim3 ! set_index 0 ! w))"
    by blast
  ultimately show ?thesis by blast
qed

section \<open>The way returned by find\_victim\<close>

lemma SRRIP_reachable_inv:
  "run SRRIP_ops (Simulator_init SRRIP_init) as = Inr sim \<Longrightarrow> SRRIP_inv sim"
  using SRRIP_run_step [OF SRRIP_inv_init, of as] by auto

lemma SRRIP_find_victim_range:
  assumes "SRRIP_inv sim"
  shows "\<exists>v p'. find_victim SRRIP_ops (policy sim) (set_index addr) (cache sim ! set_index addr)
                   p_c sh st = Inr (v, p') \<and> 0 \<le> v \<and> v < int WAYS"
proof -
  have s: "set_index addr < NUM_SETS" by (rule set_index_less)
  with assms have len: "length (rrpv_bits (policy sim) ! set_index addr) = WAYS"
    and rg: "list_all (\<lambda>v. 0 \<le> v \<and> v \<le> 3) (rrpv_bits (policy sim) ! set_index addr)"
    by (simp_all add: SRRIP_inv_def)
  from SRRIP_find_victim_result [OF len rg, of "cache sim ! set_index addr" p_c sh st]
  obtain w row where "SRRIP_find_victim (policy sim) (set_index addr) (cache sim ! set_index addr)
      p_c sh st = Inr (int w, (policy sim)\<lparr>rrpv_bits := (rrpv_bits (policy sim))[set_index addr := row]\<rparr>)"
    "w < WAYS" by blast
  then show ?thesis by (simp add: SRRIP_ops_def)
qed

lemma COALESCE_find_victim_range:
  assumes "COALESCE_inv sim"
  shows "\<exists>v p'. find_victim COALESCE_ops (policy sim) (set_index addr) (cache sim ! set_index addr)
                   p_c sh st = Inr (v, p') \<and> 0 \<le> v \<and> v < int WAYS"
proof (cases "has_invalid (cache sim ! set_index addr)")
  case True
  from COALESCE_find_victim_invalid [OF True, of "policy sim" "set_index addr" p_c sh st]
  show ?thesis by (auto simp: COALESCE_ops_def)
next
  case False
  from assms have "weights_ok (brain (policy sim))" by (simp add: COALESCE_inv_def)
  from COALESCE_find_victim_full [OF this False, of "set_index addr" p_c sh st]
  obtain w p' where "COALESCE_find_victim (policy sim) (set_index addr) (cache sim ! set_index addr)
      p_c sh st = Inr (int w, p')" "w < WAYS" by blast
  then show ?thesis by (simp add: COALESCE_ops_def)
qed

text \<open>
  Claim C6 (as amended). \<open>access\<close> does not test the way returned by \<open>find_victim\<close>; a
  way outside \<open>[0, WAYS)\<close> would go into the store unchecked. With LRU, SRRIP and COALESCE
  that does not happen: every sequence of accesses from the initial simulator runs to its
  end without a fault, and in the state it reaches \<open>find_victim\<close> returns a way in
  \<open>[0, WAYS)\<close>.
\<close>

theorem C6_victim_in_range:
  "(\<exists>sim v p'. run LRU_ops (Simulator_init LRU_init) as = Inr sim \<and>
      find_victim LRU_ops (policy sim) (set_index addr) (cache sim ! set_index addr) p_c sh st
        = Inr (v, p') \<and> 0 \<le> v \<and> v < int WAYS) \<and>
   (\<exists>sim v p'. run SRRIP_ops (Simulator_init SRRIP_init) as = Inr sim \<and>
      find_victim SRRIP_ops (policy sim) (set_index addr) (cache sim ! set_index addr) p_c sh st
        = Inr (v, p') \<and> 0 \<le> v \<and> v < int WAYS) \<and>
   (\<exists>sim v p'. run COALESCE_ops (Simulator_init (COALESCE_init PerceptronBrain_init)) as = Inr sim \<and>
      find_victim COALESCE_ops (policy sim) (set_index addr) (cache sim ! set_index addr) p_c sh st
        = Inr (v, p') \<and> 0 \<le> v \<and> v < int WAYS)"
proof (intro conjI)
  obtain sim where r: "run LRU_ops (Simulator_init LRU_init) as = Inr sim"
    using LRU_run_total by blast
  obtain w where "LRU_find_victim (policy sim) (set_index addr) (cache sim ! set_index addr)
      p_c sh st = Inr (int w, policy sim)" "w < WAYS"
    using LRU_find_victim_range by blast
  then have "find_victim LRU_ops (policy sim) (set_index addr) (cache sim ! set_index addr)
      p_c sh st = Inr (int w, policy sim) \<and> 0 \<le> int w \<and> int w < int WAYS"
    by (simp add: LRU_ops_def)
  with r show "\<exists>sim v p'. run LRU_ops (Simulator_init LRU_init) as = Inr sim \<and>
      find_victim LRU_ops (policy sim) (set_index addr) (cache sim ! set_index addr) p_c sh st
        = Inr (v, p') \<and> 0 \<le> v \<and> v < int WAYS"
    by blast
next
  obtain sim where r: "run SRRIP_ops (Simulator_init SRRIP_init) as = Inr sim"
    and inv: "SRRIP_inv sim"
    using SRRIP_run_step [OF SRRIP_inv_init] by blast
  from r SRRIP_find_victim_range [OF inv, of addr p_c sh st]
  show "\<exists>sim v p'. run SRRIP_ops (Simulator_init SRRIP_init) as = Inr sim \<and>
      find_victim SRRIP_ops (policy sim) (set_index addr) (cache sim ! set_index addr) p_c sh st
        = Inr (v, p') \<and> 0 \<le> v \<and> v < int WAYS"
    by blast
next
  obtain sim where r: "run COALESCE_ops (Simulator_init (COALESCE_init PerceptronBrain_init)) as = Inr sim"
    and inv: "COALESCE_inv sim"
    using COALESCE_run_step [OF COALESCE_inv_init] by blast
  from r COALESCE_find_victim_range [OF inv, of addr p_c sh st]
  show "\<exists>sim v p'. run COALESCE_ops (Simulator_init (COALESCE_init PerceptronBrain_init)) as = Inr sim \<and>
      find_victim COALESCE_ops (policy sim) (set_index addr) (cache sim ! set_index addr) p_c sh st
        = Inr (v, p') \<and> 0 \<le> v \<and> v < int WAYS"
    by blast
qed

text \<open>
  A policy object whose \<open>find_victim\<close> returns \<open>WAYS\<close>: the access counts the miss and
  reaches the store with that way.
\<close>

theorem C6_unchecked_store_counterexample:
  "find_victim
     \<lparr>update_on_hit = (\<lambda>p s w l. p), update_on_miss = (\<lambda>p s w. p),
      find_victim = (\<lambda>p s c p_c sh st. Inr (8, p)), name = ''OutOfRange''\<rparr>
     () 0 (replicate WAYS CacheLine_default) 0 0 INVALID = Inr (8, ()) \<and>
   int WAYS \<le> 8 \<and>
   access
     \<lparr>update_on_hit = (\<lambda>p s w l. p), update_on_miss = (\<lambda>p s w. p),
      find_victim = (\<lambda>p s c p_c sh st. Inr (8, p)), name = ''OutOfRange''\<rparr>
     (Simulator_init ()) 0 0 0 INVALID = Inl (OutOfBoundsStore 0 8)"
proof -
  let ?ops = "\<lparr>update_on_hit = (\<lambda>p s w l. p), update_on_miss = (\<lambda>p s w. p),
      find_victim = (\<lambda>p s c p_c sh st. Inr (8, p)), name = ''OutOfRange''\<rparr>
    :: unit ReplacementPolicy"
  have s: "set_index 0 = 0" by (simp add: set_index_def)
  have row: "cache (Simulator_init ()) ! set_index 0 = replicate WAYS CacheLine_default"
    by (simp add: cache_init_row set_index_less)
  have miss: "find_hit (cache (Simulator_init ()) ! set_index 0) 0 = None"
    unfolding row by (rule find_hit_init)
  have fv: "find_victim ?ops (policy (Simulator_init ())) (set_index 0)
      (cache (Simulator_init ()) ! set_index 0) 0 0 INVALID = Inr (8, ())"
    by simp
  have "access ?ops (Simulator_init ()) 0 0 0 INVALID = Inl (OutOfBoundsStore (set_index 0) 8)"
    using miss fv by (rule access_miss_out_of_range) (simp add: WAYS_def)
  then show ?thesis by (simp add: s WAYS_def)
qed

section \<open>One valid line per tag\<close>

lemma distinct_tags_install:
  assumes "distinct (map tag (filter valid row))"
    and "\<forall>l\<in>set row. valid l \<longrightarrow> tag l \<noteq> a" and "valid l'" and "tag l' = a"
  shows "distinct (map tag (filter valid (row[v := l'])))"
  using assms
proof (induction row arbitrary: v)
  case Nil
  then show ?case by simp
next
  case (Cons x row)
  show ?case
  proof (cases v)
    case 0
    with Cons.prems show ?thesis by (auto split: if_splits)
  next
    case (Suc k)
    from Cons.prems have d: "distinct (map tag (filter valid row))"
      and f: "\<forall>l\<in>set row. valid l \<longrightarrow> tag l \<noteq> a"
      by (auto split: if_splits)
    have IH: "distinct (map tag (filter valid (row[k := l'])))"
      using Cons.IH [OF d f Cons.prems(3,4)] .
    show ?thesis
    proof (cases "valid x")
      case False
      with IH Suc show ?thesis by simp
    next
      case True
      with Cons.prems have xa: "tag x \<noteq> a" and xn: "tag x \<notin> tag ` set (filter valid row)"
        by auto
      have "tag x \<notin> tag ` set (filter valid (row[k := l']))"
      proof
        assume "tag x \<in> tag ` set (filter valid (row[k := l']))"
        then obtain l where l: "l \<in> set (row[k := l'])" "valid l" "tag l = tag x" by auto
        from l(1) set_update_subset_insert [of row k l'] have "l = l' \<or> l \<in> set row" by auto
        then show False
        proof
          assume "l = l'"
          with l(3) xa Cons.prems(4) show False by simp
        next
          assume "l \<in> set row"
          with l(2) have "tag l \<in> tag ` set (filter valid row)" by simp
          with l(3) xn show False by simp
        qed
      qed
      with IH True Suc show ?thesis by simp
    qed
  qed
qed

lemma access_unique_tags:
  assumes wf: "wf_cache (cache sim)"
    and u: "\<forall>s<NUM_SETS. distinct (map tag (filter valid (cache sim ! s)))"
    and a: "access ops sim addr p_c sh st = Inr sim'"
  shows "wf_cache (cache sim') \<and> (\<forall>s<NUM_SETS. distinct (map tag (filter valid (cache sim' ! s))))"
  using a
proof (cases rule: access_Inr_cases)
  case (hit w)
  from access_hit [OF hit, of ops p_c sh st] a have "cache sim' = cache sim" by auto
  with wf u show ?thesis by simp
next
  case (miss v p')
  let ?s = "set_index addr"
  let ?l = "\<lparr>valid = True, tag = addr, pc = p_c, sharers = sh, state = st, lru_stack = 0, rrpv = 3\<rparr>"
  have s: "?s < NUM_SETS" by (rule set_index_less)
  have lc: "length (cache sim) = NUM_SETS" using wf by (simp add: wf_cache_def)
  have lrow: "length (cache sim ! ?s) = WAYS" using wf s by (rule wf_cache_row)
  from access_miss [OF miss] a
  have c': "cache sim' = (cache sim)[?s := (cache sim ! ?s)[nat v := ?l]]" by auto
  have fresh: "\<forall>l\<in>set (cache sim ! ?s). valid l \<longrightarrow> tag l \<noteq> addr"
    using miss(1) by (simp add: find_hit_None_iff [OF lrow])
  have new: "distinct (map tag (filter valid ((cache sim ! ?s)[nat v := ?l])))"
    using u s fresh by (intro distinct_tags_install [where a = addr]) simp_all
  have "wf_cache (cache sim')"
    unfolding c' using wf by (rule wf_cache_update) (simp add: lrow)
  moreover have "distinct (map tag (filter valid (cache sim' ! t)))" if t: "t < NUM_SETS" for t
  proof (cases "t = ?s")
    case True
    with new s lc show ?thesis unfolding c' by simp
  next
    case False
    with u t show ?thesis unfolding c' by simp
  qed
  ultimately show ?thesis by simp
qed

lemma run_unique_tags:
  "wf_cache (cache sim) \<Longrightarrow>
   \<forall>s<NUM_SETS. distinct (map tag (filter valid (cache sim ! s))) \<Longrightarrow>
   run ops sim as = Inr sim' \<Longrightarrow>
   wf_cache (cache sim') \<and> (\<forall>s<NUM_SETS. distinct (map tag (filter valid (cache sim' ! s))))"
proof (induction as arbitrary: sim)
  case Nil
  then show ?case by simp
next
  case (Cons a as)
  obtain addr p_c sh st where a: "a = (addr, p_c, sh, st)" by (cases a)
  from Cons.prems(3) a obtain s1 where
    s1: "access ops sim addr p_c sh st = Inr s1" and r: "run ops s1 as = Inr sim'"
    by (auto split: sum.splits)
  from access_unique_tags [OF Cons.prems(1,2) s1]
  have "wf_cache (cache s1)" "\<forall>s<NUM_SETS. distinct (map tag (filter valid (cache s1 ! s)))"
    by simp_all
  from Cons.IH [OF this r] show ?case .
qed

text \<open>
  Claim C7. Whatever the policy, in every state that a sequence of accesses reaches from
  the all-invalid cache without a fault, the valid lines of each set carry pairwise
  different tags (and each set still has its \<open>WAYS\<close> lines).
\<close>

theorem C7_one_valid_line_per_tag:
  assumes "run ops (Simulator_init p) as = Inr sim" and "s < NUM_SETS"
  shows "distinct (map tag (filter valid (cache sim ! s))) \<and> length (cache sim ! s) = WAYS"
proof -
  have "\<forall>s<NUM_SETS. distinct (map tag (filter valid (cache (Simulator_init p) ! s)))"
    by (simp add: cache_init_row CacheLine_default_def)
  from run_unique_tags [OF wf_cache_init this assms(1)] assms(2) show ?thesis
    by (simp add: wf_cache_row)
qed

theorem C7_one_valid_line_per_tag_witness:
  "\<exists>sim. run LRU_ops (Simulator_init LRU_init)
            [(0, 0xBAD, 0, EXCLUSIVE), (4096, 0xBAD, 0, EXCLUSIVE), (0, 0xF00D, 4, MODIFIED)] = Inr sim \<and>
     0 < NUM_SETS \<and>
     distinct (map tag (filter valid (cache sim ! 0))) \<and> length (cache sim ! 0) = WAYS"
proof -
  obtain sim where r: "run LRU_ops (Simulator_init LRU_init)
      [(0, 0xBAD, 0, EXCLUSIVE), (4096, 0xBAD, 0, EXCLUSIVE), (0, 0xF00D, 4, MODIFIED)] = Inr sim"
    using LRU_run_total by blast
  from C7_one_valid_line_per_tag [OF r NUM_SETS_pos] r NUM_SETS_pos show ?thesis by blast
qed

section \<open>The hit path\<close>

text \<open>
  Claim C10. If some way of the addressed set holds a valid line with the tag, \<open>access\<close>
  returns the state in which the cache and the miss counter are unchanged, the hit
  counter is one larger, the policy is the result of \<open>update_on_hit\<close> on the first such way
  \<open>h\<close> and the stored line, and the coherence-win counter is one larger exactly when the
  stored line is Modified or has more than one sharer. The incoming \<open>pc\<close>, \<open>sharers\<close> and
  \<open>state\<close> do not occur in the result: any other three give the same one.
\<close>

theorem C10_hit_leaves_cache:
  assumes "w < WAYS" and "valid (cache sim ! set_index addr ! w)"
    and "tag (cache sim ! set_index addr ! w) = addr"
  shows "\<exists>h\<le>w. find_hit (cache sim ! set_index addr) addr = Some h \<and>
           access ops sim addr p_c sh st =
             Inr (sim\<lparr>hits := hits sim + 1,
                      policy := update_on_hit ops (policy sim) (set_index addr) h
                                  (cache sim ! set_index addr ! h),
                      coherence_traffic_saved := coherence_traffic_saved sim +
                        (if state (cache sim ! set_index addr ! h) = MODIFIED \<or>
                            sharers (cache sim ! set_index addr ! h) > 1 then 1 else 0)\<rparr>) \<and>
           access ops sim addr p_c' sh' st' = access ops sim addr p_c sh st \<and>
           (\<exists>sim'. access ops sim addr p_c sh st = Inr sim' \<and> cache sim' = cache sim \<and>
              misses sim' = misses sim \<and> hits sim' = hits sim + 1)"
proof -
  from find_hit_exists [OF assms] obtain h where h: "h \<le> w"
    and f: "find_hit (cache sim ! set_index addr) addr = Some h" by blast
  note a = access_hit [OF f, of ops]
  have "access ops sim addr p_c' sh' st' = access ops sim addr p_c sh st"
    by (simp only: a)
  moreover have "\<exists>sim'. access ops sim addr p_c sh st = Inr sim' \<and> cache sim' = cache sim \<and>
              misses sim' = misses sim \<and> hits sim' = hits sim + 1"
    by (simp add: a)
  ultimately show ?thesis using h f a [of p_c sh st] by blast
qed

theorem C10_hit_leaves_cache_witness:
  "\<exists>sim1 w. access LRU_ops (Simulator_init LRU_init) 0 0xF00D 4 MODIFIED = Inr sim1 \<and>
     w < WAYS \<and> valid (cache sim1 ! set_index 0 ! w) \<and> tag (cache sim1 ! set_index 0 ! w) = 0 \<and>
     access LRU_ops sim1 0 0xBAD 0 EXCLUSIVE = access LRU_ops sim1 0 0xF00D 4 MODIFIED \<and>
     (\<exists>sim2. access LRU_ops sim1 0 0xBAD 0 EXCLUSIVE = Inr sim2 \<and> cache sim2 = cache sim1 \<and>
        misses sim2 = misses sim1 \<and> hits sim2 = hits sim1 + 1)"
proof -
  obtain sim1 where a1: "access LRU_ops (Simulator_init LRU_init) 0 0xF00D 4 MODIFIED = Inr sim1"
    using LRU_access_total by blast
  from first_access_partly_filled [OF a1] obtain w where w: "w < WAYS"
    "valid (cache sim1 ! set_index 0 ! w)" "tag (cache sim1 ! set_index 0 ! w) = 0"
    by blast
  from C10_hit_leaves_cache [OF w, of LRU_ops "0xF00D" 4 MODIFIED "0xBAD" 0 EXCLUSIVE]
  have "access LRU_ops sim1 0 0xBAD 0 EXCLUSIVE = access LRU_ops sim1 0 0xF00D 4 MODIFIED"
    and "\<exists>sim2. access LRU_ops sim1 0 0xF00D 4 MODIFIED = Inr sim2 \<and> cache sim2 = cache sim1 \<and>
        misses sim2 = misses sim1 \<and> hits sim2 = hits sim1 + 1"
    by blast+
  then have "access LRU_ops sim1 0 0xBAD 0 EXCLUSIVE = access LRU_ops sim1 0 0xF00D 4 MODIFIED \<and>
     (\<exists>sim2. access LRU_ops sim1 0 0xBAD 0 EXCLUSIVE = Inr sim2 \<and> cache sim2 = cache sim1 \<and>
        misses sim2 = misses sim1 \<and> hits sim2 = hits sim1 + 1)"
    by simp
  with a1 w show ?thesis by blast
qed

section \<open>The weights at all times\<close>

text \<open>
  Claim C5. The weights of a freshly constructed brain are all 0. After any sequence of
  \<open>train\<close> calls on it every weight lies in \<open>[-128, 127]\<close>: a positive call moves the
  addressed weight to \<open>min 127 (w + 1)\<close>, a negative call to \<open>max (-128) (w - 1)\<close>, so a
  weight at a bound stays there and never wraps. The same bounds hold for the brain of the
  COALESCE policy in the state that any sequence of accesses reaches.
\<close>

theorem C5_weights_saturate:
  "list_all (\<lambda>w. w = 0) (weights PerceptronBrain_init) \<and>
   list_all (\<lambda>w. - 128 \<le> w \<and> w \<le> 127) (weights (train_all PerceptronBrain_init cs)) \<and>
   weights (train (train_all PerceptronBrain_init cs) p sh st True) ! get_hash p sh st =
     min 127 (weights (train_all PerceptronBrain_init cs) ! get_hash p sh st + 1) \<and>
   weights (train (train_all PerceptronBrain_init cs) p sh st False) ! get_hash p sh st =
     max (- 128) (weights (train_all PerceptronBrain_init cs) ! get_hash p sh st - 1) \<and>
   (\<exists>sim. run COALESCE_ops (Simulator_init (COALESCE_init PerceptronBrain_init)) as = Inr sim \<and>
      list_all (\<lambda>w. - 128 \<le> w \<and> w \<le> 127) (weights (brain (policy sim))))"
proof -
  have ok: "weights_ok (train_all PerceptronBrain_init cs)"
    by (rule weights_ok_train_all [OF weights_ok_init])
  have zero: "list_all (\<lambda>w. w = 0) (weights PerceptronBrain_init)"
    by (simp add: PerceptronBrain_init_def list_all_iff)
  obtain sim where r: "run COALESCE_ops (Simulator_init (COALESCE_init PerceptronBrain_init)) as = Inr sim"
    and inv: "COALESCE_inv sim"
    using COALESCE_run_step [OF COALESCE_inv_init] by blast
  from inv have "list_all (\<lambda>w. - 128 \<le> w \<and> w \<le> 127) (weights (brain (policy sim)))"
    by (simp add: COALESCE_inv_def weights_ok_def)
  with r have reach: "\<exists>sim. run COALESCE_ops (Simulator_init (COALESCE_init PerceptronBrain_init)) as = Inr sim \<and>
      list_all (\<lambda>w. - 128 \<le> w \<and> w \<le> 127) (weights (brain (policy sim)))"
    by blast
  from ok zero reach show ?thesis
    by (simp add: train_weight_positive train_weight_negative weights_ok_def)
qed

end
